theory Spec2Isabelle
  imports Complex_Main
begin

section \<open>Entities\<close>

text \<open>
  Numbers. Python integers are \<open>int\<close>. The bird's vertical position and the genome
  fitness become Python floats as soon as \<open>1.5 * tick ** 2\<close> or \<open>0.1\<close> is added to them; they
  are kept here as exact rationals (the vertical positions are multiples of one half, which
  a double represents exactly).
\<close>

datatype error = IndexError | ZeroDivisionError

text \<open>
  A \<open>pygame.Surface\<close>, as far as the program looks at it: its dimensions, and the pixels
  from which \<open>pygame.mask.from_surface\<close> builds the collision mask.
\<close>

record surface =
  get_width :: int
  get_height :: int
  pixels :: "(int \<times> int) list"

text \<open>\<open>pygame.transform.flip(image, False, True)\<close>: the vertical mirror image, same size.\<close>

definition flip_vertical :: "surface \<Rightarrow> surface" where
  "flip_vertical img =
     img\<lparr>pixels := map (\<lambda>(x, y). (x, get_height img - 1 - y)) (pixels img)\<rparr>"

text \<open>Python's \<open>round\<close> on a float: to the nearest integer, ties to the even one.\<close>

definition py_round :: "rat \<Rightarrow> int" where
  "py_round x =
     (let f = \<lfloor>x\<rfloor>; d = x - of_int f
      in if d < 1 / 2 then f
         else if 1 / 2 < d then f + 1
         else if even f then f else f + 1)"

subsection \<open>Bird.py\<close>

definition BIRD_JUMP_VELOCITY :: int where "BIRD_JUMP_VELOCITY = - 10"
definition BIRD_TERMINAL_VELOCITY :: int where "BIRD_TERMINAL_VELOCITY = 16"
definition BIRD_MAX_ROTATION :: int where "BIRD_MAX_ROTATION = 25"
definition BIRD_OFFSET :: int where "BIRD_OFFSET = 680"

text \<open>
  The attributes of a \<open>Bird\<close>. \<open>position\<close> is the two-element list \<open>[x, y]\<close>, built by the
  caller and never resized. The record is extensible: \<open>'a bird_scheme\<close> is a bird object
  with further attributes, which no method below reads or writes.
\<close>

record bird =
  position :: "int \<times> rat"
  rotation :: int
  velocity :: int
  jump_position :: rat
  animation_frame :: int
  tick_frame :: int
  images :: "surface list"
  image :: surface

text \<open>\<open>Bird.__init__\<close>; \<open>self.images[0]\<close> raises on an empty list of images.\<close>

definition Bird :: "int \<times> rat \<Rightarrow> surface list \<Rightarrow> error + bird" where
  "Bird pos imgs =
     (case imgs of
        [] \<Rightarrow> Inl IndexError
      | img # _ \<Rightarrow>
          Inr \<lparr>position = pos, rotation = 0, velocity = 0, jump_position = snd pos,
               animation_frame = 0, tick_frame = 0, images = imgs, image = img\<rparr>)"

text \<open>The distance of one tick, before the cap: \<open>velocity * tick + 1.5 * tick ** 2\<close>.\<close>

definition distance_formula :: "int \<Rightarrow> int \<Rightarrow> rat" where
  "distance_formula v t = of_int v * of_int t + (3 / 2) * (of_int t)\<^sup>2"

definition move :: "'a bird_scheme \<Rightarrow> 'a bird_scheme" where
  "move b =
     (let t = tick_frame b + 1;
          d = distance_formula (velocity b) t;
          distance = (if of_int BIRD_TERMINAL_VELOCITY \<le> d then of_int BIRD_TERMINAL_VELOCITY else d);
          y = snd (position b) + distance
      in b\<lparr>tick_frame := t,
            position := (fst (position b), y),
            rotation := (if distance < 0 \<or> y < jump_position b
                         then BIRD_MAX_ROTATION else - BIRD_MAX_ROTATION)\<rparr>)"

definition jump :: "'a bird_scheme \<Rightarrow> 'a bird_scheme" where
  "jump b = b\<lparr>velocity := BIRD_JUMP_VELOCITY,
               jump_position := snd (position b),
               tick_frame := 0\<rparr>"

definition hits_border :: "'a bird_scheme \<Rightarrow> bool" where
  "hits_border b \<longleftrightarrow>
     of_int BIRD_OFFSET \<le> snd (position b) + of_int (get_height (image b))
     \<or> snd (position b) < 0"

text \<open>
  What \<open>Bird.draw\<close> does to the bird itself (the blit is rendering): the next animation
  image. The remainder \<open>animation_frame % len(self.images)\<close> raises when there is no image.
\<close>

definition draw_bird :: "'a bird_scheme \<Rightarrow> error + 'a bird_scheme" where
  "draw_bird b =
     (let f = animation_frame b + 1
      in if images b = [] then Inl ZeroDivisionError
         else Inr (b\<lparr>animation_frame := f,
                      image := images b ! nat (f mod int (length (images b)))\<rparr>))"

text \<open>
  The displacement that one call of \<open>move\<close> applies to the vertical position, and the
  displacements of \<open>n\<close> calls in a row with no \<open>jump\<close> between them.
\<close>

definition displacement :: "'a bird_scheme \<Rightarrow> rat" where
  "displacement b = snd (position (move b)) - snd (position b)"

definition displacements :: "nat \<Rightarrow> 'a bird_scheme \<Rightarrow> rat list" where
  "displacements n b = map (\<lambda>k. displacement ((move ^^ k) b)) [0..<n]"

subsection \<open>Pipe.py\<close>

definition PIPE_GAP :: int where "PIPE_GAP = 300"
definition PIPE_VELOCITY :: int where "PIPE_VELOCITY = 5"
definition PIPE_MIN_HEIGHT :: int where "PIPE_MIN_HEIGHT = 50"
definition PIPE_MAX_HEIGHT :: int where "PIPE_MAX_HEIGHT = 450"

text \<open>
  The attributes of a \<open>Pipe\<close>. \<open>mini_pipes\<close> and \<open>position_y\<close> are the two-element lists
  that the constructor builds (index 0 the bottom pipe, index 1 the top one).
\<close>

record pipe =
  position_x :: int
  is_passed :: bool
  mini_pipes :: "surface \<times> surface"
  position_y :: "int \<times> int"
  height :: int

text \<open>
  \<open>Pipe.__init__\<close> with \<open>__init_pipe\<close>. The last argument is the value that
  \<open>randrange(PIPE_MIN_HEIGHT, PIPE_MAX_HEIGHT)\<close> returns.
\<close>

definition Pipe :: "int \<Rightarrow> surface \<Rightarrow> int \<Rightarrow> pipe" where
  "Pipe x img h =
     \<lparr>position_x = x, is_passed = False,
      mini_pipes = (img, flip_vertical img),
      position_y = (h + PIPE_GAP, h - get_height (flip_vertical img)),
      height = h\<rparr>"

definition move_pipe :: "pipe \<Rightarrow> pipe" where
  "move_pipe p = p\<lparr>position_x := position_x p - PIPE_VELOCITY\<rparr>"

definition is_window_passed :: "pipe \<Rightarrow> bool" where
  "is_window_passed p \<longleftrightarrow> position_x p + get_width (fst (mini_pipes p)) < 0"

text \<open>\<open>is_bird_passed\<close> latches \<open>is_passed\<close> and returns it: the result and the pipe.\<close>

definition is_bird_passed :: "pipe \<Rightarrow> 'a bird_scheme \<Rightarrow> bool \<times> pipe" where
  "is_bird_passed p b =
     (let p' = (if position_x p < fst (position b) then p\<lparr>is_passed := True\<rparr> else p)
      in (is_passed p', p'))"

text \<open>
  The truth value that Python gives the result of \<open>Mask.overlap\<close>: \<open>None\<close> is false, and
  a point, which is a tuple of two coordinates, is true.
\<close>

definition truth_value :: "(int \<times> int) option \<Rightarrow> bool" where
  "truth_value r = (case r of None \<Rightarrow> False | Some point \<Rightarrow> True)"

text \<open>
  \<open>is_collision\<close>. The parameter \<open>overlap\<close> is pygame's
  \<open>from_surface(a).overlap(from_surface(b), offset)\<close>; the caller uses the result of
  \<open>bottom_overlap or top_overlap\<close> as a condition.
\<close>

definition is_collision ::
  "(surface \<Rightarrow> surface \<Rightarrow> int \<times> int \<Rightarrow> (int \<times> int) option) \<Rightarrow> pipe \<Rightarrow> 'a bird_scheme \<Rightarrow> bool" where
  "is_collision overlap p b =
     (let offsets0 = (position_x p - fst (position b),
                      fst (position_y p) - py_round (snd (position b)));
          offsets1 = (position_x p - fst (position b),
                      snd (position_y p) - py_round (snd (position b)));
          bottom_overlap = overlap (image b) (fst (mini_pipes p)) offsets0;
          top_overlap = overlap (image b) (snd (mini_pipes p)) offsets1
      in truth_value bottom_overlap \<or> truth_value top_overlap)"

subsection \<open>Base.py\<close>

definition BASE_VELOCITY :: int where "BASE_VELOCITY = 5"

text \<open>The attributes of the \<open>Base\<close>; \<open>position_x\<close> is a two-element list.\<close>

record base =
  base_position_x :: "int \<times> int"
  base_position_y :: int
  base_image :: surface

definition Base :: "int \<Rightarrow> surface \<Rightarrow> base" where
  "Base y img = \<lparr>base_position_x = (0, get_width img), base_position_y = y, base_image = img\<rparr>"

text \<open>
  \<open>Base.move\<close>: both offsets go left, then the loop wraps index 0 and after it index 1,
  which reads the offset that index 0 has just been given.
\<close>

definition move_base :: "base \<Rightarrow> base" where
  "move_base b =
     (let w = get_width (base_image b);
          x0 = fst (base_position_x b) - BASE_VELOCITY;
          x1 = snd (base_position_x b) - BASE_VELOCITY;
          x0' = (if x0 + w < 0 then x1 + w else x0);
          x1' = (if x1 + w < 0 then x0' + w else x1)
      in b\<lparr>base_position_x := (x0', x1')\<rparr>)"

section \<open>Engine.py\<close>

definition BIRD_POSITION_X :: int where "BIRD_POSITION_X = 220"
definition BIRD_POSITION_Y :: int where "BIRD_POSITION_Y = 350"
definition BASE_POSITION_Y :: int where "BASE_POSITION_Y = 650"
definition PIPE_POSITION_X :: int where "PIPE_POSITION_X = 650"
definition FITNESS_INCREASE_PASS :: rat where "FITNESS_INCREASE_PASS = 5"
definition FITNESS_INCREASE_LIVE :: rat where "FITNESS_INCREASE_LIVE = 1 / 10"
definition DECISION_BORDER :: rat where "DECISION_BORDER = 1 / 2"
definition FITNESS_DECREASE :: rat where "FITNESS_DECREASE = 1"

datatype AssetType = BIRD_IMAGE | BASE_IMAGE | BACKGROUND_IMAGE | PIPE_IMAGE

text \<open>
  The state of the \<open>Engine\<close> that the simulation reads and writes. The three lists
  \<open>birds\<close>, \<open>networks\<close> and \<open>genomes\<close> are the parallel lists of the source. A network
  is an object of the NEAT library, of type \<open>'n\<close>. The list \<open>genomes\<close> holds references
  \<open>'g\<close> to genome objects that the NEAT population owns, and \<open>fitness\<close> is the store of
  their \<open>fitness\<close> attributes: \<open>fitness s g\<close> is \<open>g.fitness\<close>, also after the engine has
  dropped its reference to \<open>g\<close>.
\<close>

record ('b, 'n, 'g) engine =
  assets :: "(AssetType \<times> surface) list"
  birds :: "'b bird_scheme list"
  pipes :: "pipe list"
  base :: base
  score :: int
  networks :: "'n list"
  genomes :: "'g list"
  fitness :: "'g \<Rightarrow> rat"

definition get_assets :: "('b, 'n, 'g) engine \<Rightarrow> AssetType \<Rightarrow> surface list" where
  "get_assets s t = map snd (filter (\<lambda>a. fst a = t) (assets s))"

text \<open>\<open>list.pop(i)\<close> for an index \<open>i \<ge> 0\<close>; the source drops the element it returns.\<close>

definition pop :: "nat \<Rightarrow> 'a list \<Rightarrow> error + 'a list" where
  "pop i xs = (if i < length xs then Inr (take i xs @ drop (Suc i) xs) else Inl IndexError)"

text \<open>
  The three \<open>pop(i)\<close> in a row (lines 301 to 303 and again 326 to 328): the bird, then its
  network, then its genome.
\<close>

definition remove_agent :: "nat \<Rightarrow> ('b, 'n, 'g) engine \<Rightarrow> error + ('b, 'n, 'g) engine" where
  "remove_agent i s =
     (case pop i (birds s) of
        Inl e \<Rightarrow> Inl e
      | Inr bs \<Rightarrow>
          (case pop i (networks s) of
             Inl e \<Rightarrow> Inl e
           | Inr ns \<Rightarrow>
               (case pop i (genomes s) of
                  Inl e \<Rightarrow> Inl e
                | Inr gs \<Rightarrow> Inr (s\<lparr>birds := bs, networks := ns, genomes := gs\<rparr>))))"

text \<open>The branch taken on a collision (lines 300 to 303): the penalty, then the removal.\<close>

definition on_collision :: "nat \<Rightarrow> ('b, 'n, 'g) engine \<Rightarrow> error + ('b, 'n, 'g) engine" where
  "on_collision i s =
     (if i < length (genomes s)
      then remove_agent i
             (s\<lparr>fitness := (fitness s)(genomes s ! i := fitness s (genomes s ! i) - FITNESS_DECREASE)\<rparr>)
      else Inl IndexError)"

text \<open>
  The body of the inner loop of \<open>move_pipes\<close> (lines 299 to 306) for the index \<open>i\<close> of the
  iterator, with \<open>i < len(self.birds)\<close>. \<open>bird\<close> stays bound to the bird read at \<open>i\<close>, also
  after that bird has been popped. The pipe and the flag \<open>create_new_pipe\<close> are threaded.
\<close>

definition scan_step ::
  "(surface \<Rightarrow> surface \<Rightarrow> int \<times> int \<Rightarrow> (int \<times> int) option) \<Rightarrow> nat \<Rightarrow> pipe \<Rightarrow> bool
     \<Rightarrow> ('b, 'n, 'g) engine \<Rightarrow> error + (pipe \<times> bool \<times> ('b, 'n, 'g) engine)" where
  "scan_step overlap i p create_new_pipe s =
     (let bird = birds s ! i
      in case (if is_collision overlap p bird then on_collision i s else Inr s) of
           Inl e \<Rightarrow> Inl e
         | Inr s' \<Rightarrow>
             (if \<not> is_passed p
              then (let (r, p') = is_bird_passed p bird
                    in Inr (p', (if r then True else create_new_pipe), s'))
              else Inr (p, create_new_pipe, s')))"

lemma pop_length: "pop i xs = Inr ys \<Longrightarrow> Suc (length ys) = length xs"
  by (auto simp: pop_def split: if_splits)

lemma remove_agent_length:
  "remove_agent i s = Inr s' \<Longrightarrow> Suc (length (birds s')) = length (birds s)"
  by (auto simp: remove_agent_def split: sum.splits dest: pop_length)

lemma on_collision_length:
  "on_collision i s = Inr s' \<Longrightarrow> Suc (length (birds s')) = length (birds s)"
  by (auto simp: on_collision_def split: if_splits dest: remove_agent_length)

lemma scan_step_length:
  "scan_step overlap i p c s = Inr (p', c', s') \<Longrightarrow> length (birds s') \<le> length (birds s)"
  by (auto simp: scan_step_def Let_def split: sum.splits if_splits prod.splits
      dest: on_collision_length)

text \<open>
  \<open>for i, bird in enumerate(self.birds)\<close> over a list that the body shrinks: the
  iterator keeps its index and stops when the index reaches the current length.
\<close>

function birds_loop ::
  "(surface \<Rightarrow> surface \<Rightarrow> int \<times> int \<Rightarrow> (int \<times> int) option) \<Rightarrow> nat \<Rightarrow> pipe \<Rightarrow> bool
     \<Rightarrow> ('b, 'n, 'g) engine \<Rightarrow> error + (pipe \<times> bool \<times> ('b, 'n, 'g) engine)" where
  "birds_loop overlap i p create_new_pipe s =
     (if i < length (birds s)
      then (case scan_step overlap i p create_new_pipe s of
              Inl e \<Rightarrow> Inl e
            | Inr (p', c', s') \<Rightarrow> birds_loop overlap (Suc i) p' c' s')
      else Inr (p, create_new_pipe, s))"
  by pat_completeness auto
termination
  by (relation "measure (\<lambda>(overlap, i, p, c, s). length (birds s) - i)")
    (auto dest: scan_step_length)

declare birds_loop.simps [simp del]

text \<open>
  The outer loop of \<open>move_pipes\<close> (lines 296 to 311). It does not change the list
  \<open>self.pipes\<close>, only the pipe objects in it, so the recursion goes over the list and
  returns the pipes as the loop leaves them, each with the mark that says whether the loop
  has put it into \<open>pipes_to_remove\<close>.
\<close>

fun pipes_loop ::
  "(surface \<Rightarrow> surface \<Rightarrow> int \<times> int \<Rightarrow> (int \<times> int) option) \<Rightarrow> pipe list \<Rightarrow> bool
     \<Rightarrow> ('b, 'n, 'g) engine \<Rightarrow> error + ((pipe \<times> bool) list \<times> bool \<times> ('b, 'n, 'g) engine)" where
  "pipes_loop overlap [] create_new_pipe s = Inr ([], create_new_pipe, s)"
| "pipes_loop overlap (p # ps) create_new_pipe s =
     (case birds_loop overlap 0 p create_new_pipe s of
        Inl e \<Rightarrow> Inl e
      | Inr (p', c', s') \<Rightarrow>
          (case pipes_loop overlap ps c' s' of
             Inl e \<Rightarrow> Inl e
           | Inr (marked, c'', s'') \<Rightarrow>
               Inr ((move_pipe p', is_window_passed p') # marked, c'', s'')))"

text \<open>\<open>for genome in self.genomes: genome.fitness += FITNESS_INCREASE_PASS\<close>.\<close>

definition reward_pass :: "'g list \<Rightarrow> ('g \<Rightarrow> rat) \<Rightarrow> ('g \<Rightarrow> rat)" where
  "reward_pass gs f = fold (\<lambda>g f. f(g := f g + FITNESS_INCREASE_PASS)) gs f"

text \<open>
  Lines 313 to 319, on the marked pipes: the new pipe goes to the end of the list; \<open>h\<close> is
  the height that its constructor draws.
\<close>

definition spawn_pipe ::
  "int \<Rightarrow> (pipe \<times> bool) list \<Rightarrow> ('b, 'n, 'g) engine
     \<Rightarrow> error + ((pipe \<times> bool) list \<times> ('b, 'n, 'g) engine)" where
  "spawn_pipe h marked s =
     (case get_assets s PIPE_IMAGE of
        [] \<Rightarrow> Inl IndexError
      | pipe_image # _ \<Rightarrow>
          Inr (marked @ [(Pipe PIPE_POSITION_X pipe_image h, False)],
               s\<lparr>score := score s + 1, fitness := reward_pass (genomes s) (fitness s)\<rparr>))"

text \<open>The last loop of \<open>move_pipes\<close> (lines 324 to 328), again over a shrinking list.\<close>

definition border_step :: "nat \<Rightarrow> ('b, 'n, 'g) engine \<Rightarrow> error + ('b, 'n, 'g) engine" where
  "border_step i s = (if hits_border (birds s ! i) then remove_agent i s else Inr s)"

lemma border_step_length:
  "border_step i s = Inr s' \<Longrightarrow> length (birds s') \<le> length (birds s)"
  by (auto simp: border_step_def split: if_splits dest: remove_agent_length)

function border_loop :: "nat \<Rightarrow> ('b, 'n, 'g) engine \<Rightarrow> error + ('b, 'n, 'g) engine" where
  "border_loop i s =
     (if i < length (birds s)
      then (case border_step i s of
              Inl e \<Rightarrow> Inl e
            | Inr s' \<Rightarrow> border_loop (Suc i) s')
      else Inr s)"
  by pat_completeness auto
termination
  by (relation "measure (\<lambda>(i, s). length (birds s) - i)") (auto dest: border_step_length)

declare border_loop.simps [simp del]

text \<open>
  \<open>move_pipes\<close>. \<open>self.pipes.remove(pipe_to_remove)\<close> removes a pipe object by identity,
  which is its mark here.
\<close>

definition move_pipes ::
  "(surface \<Rightarrow> surface \<Rightarrow> int \<times> int \<Rightarrow> (int \<times> int) option) \<Rightarrow> int
     \<Rightarrow> ('b, 'n, 'g) engine \<Rightarrow> error + ('b, 'n, 'g) engine" where
  "move_pipes overlap h s =
     (case pipes_loop overlap (pipes s) False s of
        Inl e \<Rightarrow> Inl e
      | Inr (marked, create_new_pipe, s1) \<Rightarrow>
          (case (if create_new_pipe then spawn_pipe h marked s1 else Inr (marked, s1)) of
             Inl e \<Rightarrow> Inl e
           | Inr (marked', s2) \<Rightarrow>
               border_loop 0 (s2\<lparr>pipes := map fst (filter (\<lambda>m. \<not> snd m) marked')\<rparr>)))"

text \<open>
  The target pipe of \<open>emulate_birds\<close> (lines 352 to 360); \<open>mini_pipes[1]\<close> is the top pipe.
\<close>

definition current_pipe_index :: "('b, 'n, 'g) engine \<Rightarrow> nat" where
  "current_pipe_index s =
     (if 0 < length (birds s)
      then (if 1 < length (pipes s)
               \<and> position_x (pipes s ! 0) + get_width (snd (mini_pipes (pipes s ! 0)))
                   < fst (position (birds s ! 0))
            then 1 else 0)
      else 0)"

text \<open>
  The body of the loop of \<open>emulate_birds\<close> (lines 363 to 377) for the bird at index \<open>i\<close>.
  The parameter \<open>activate\<close> is \<open>network.activate(inputs)[0]\<close>.
\<close>

definition emulate_bird ::
  "('n \<Rightarrow> rat \<times> rat \<times> rat \<Rightarrow> rat) \<Rightarrow> nat \<Rightarrow> nat \<Rightarrow> ('b, 'n, 'g) engine
     \<Rightarrow> error + ('b, 'n, 'g) engine" where
  "emulate_bird activate k i s =
     (let bird = move (birds s ! i);
          s1 = s\<lparr>birds := (birds s)[i := bird]\<rparr>
      in if i < length (genomes s1)
         then (let g = genomes s1 ! i;
                   s2 = s1\<lparr>fitness := (fitness s1)(g := fitness s1 g + FITNESS_INCREASE_LIVE)\<rparr>
               in if i < length (networks s2) \<and> k < length (pipes s2)
                  then (let y = snd (position bird);
                            output = activate (networks s2 ! i)
                                       (y,
                                        \<bar>y - of_int (fst (position_y (pipes s2 ! k)))\<bar>,
                                        \<bar>y - of_int (height (pipes s2 ! k))\<bar>)
                        in Inr (if DECISION_BORDER < output
                                then s2\<lparr>birds := (birds s2)[i := jump bird]\<rparr>
                                else s2))
                  else Inl IndexError)
         else Inl IndexError)"

lemma emulate_bird_length:
  "emulate_bird activate k i s = Inr s' \<Longrightarrow> length (birds s') = length (birds s)"
  by (auto simp: emulate_bird_def Let_def split: if_splits)

function emulate_loop ::
  "('n \<Rightarrow> rat \<times> rat \<times> rat \<Rightarrow> rat) \<Rightarrow> nat \<Rightarrow> nat \<Rightarrow> ('b, 'n, 'g) engine
     \<Rightarrow> error + ('b, 'n, 'g) engine" where
  "emulate_loop activate k i s =
     (if i < length (birds s)
      then (case emulate_bird activate k i s of
              Inl e \<Rightarrow> Inl e
            | Inr s' \<Rightarrow> emulate_loop activate k (Suc i) s')
      else Inr s)"
  by pat_completeness auto
termination
  by (relation "measure (\<lambda>(activate, k, i, s). length (birds s) - i)")
    (auto dest: emulate_bird_length)

declare emulate_loop.simps [simp del]

definition emulate_birds ::
  "('n \<Rightarrow> rat \<times> rat \<times> rat \<Rightarrow> rat) \<Rightarrow> ('b, 'n, 'g) engine \<Rightarrow> error + ('b, 'n, 'g) engine" where
  "emulate_birds activate s = emulate_loop activate (current_pipe_index s) 0 s"

text \<open>What \<open>draw_window\<close> changes: every bird steps its animation.\<close>

fun draw_all :: "'a bird_scheme list \<Rightarrow> error + 'a bird_scheme list" where
  "draw_all [] = Inr []"
| "draw_all (b # bs) =
     (case draw_bird b of
        Inl e \<Rightarrow> Inl e
      | Inr b' \<Rightarrow> (case draw_all bs of Inl e \<Rightarrow> Inl e | Inr bs' \<Rightarrow> Inr (b' # bs')))"

definition draw_window :: "('b, 'n, 'g) engine \<Rightarrow> error + ('b, 'n, 'g) engine" where
  "draw_window s = (case draw_all (birds s) of Inl e \<Rightarrow> Inl e | Inr bs \<Rightarrow> Inr (s\<lparr>birds := bs\<rparr>))"

text \<open>
  One pass through the body of the \<open>while\<close> loop of \<open>run_ne\<close> (lines 240 to 243), with no
  quit event. \<open>h\<close> is the height of the pipe that the frame creates, if it creates one.
\<close>

definition frame ::
  "('n \<Rightarrow> rat \<times> rat \<times> rat \<Rightarrow> rat) \<Rightarrow> (surface \<Rightarrow> surface \<Rightarrow> int \<times> int \<Rightarrow> (int \<times> int) option)
     \<Rightarrow> int \<Rightarrow> ('b, 'n, 'g) engine \<Rightarrow> error + ('b, 'n, 'g) engine" where
  "frame activate overlap h s =
     (case emulate_birds activate (s\<lparr>base := move_base (base s)\<rparr>) of
        Inl e \<Rightarrow> Inl e
      | Inr s1 \<Rightarrow>
          (case move_pipes overlap h s1 of
             Inl e \<Rightarrow> Inl e
           | Inr s2 \<Rightarrow> draw_window s2))"

text \<open>
  The \<open>while\<close> loop of \<open>run_ne\<close>, for as many frames as heights are given: it stops
  earlier when no bird is left.
\<close>

fun run_frames ::
  "('n \<Rightarrow> rat \<times> rat \<times> rat \<Rightarrow> rat) \<Rightarrow> (surface \<Rightarrow> surface \<Rightarrow> int \<times> int \<Rightarrow> (int \<times> int) option)
     \<Rightarrow> int list \<Rightarrow> ('b, 'n, 'g) engine \<Rightarrow> error + ('b, 'n, 'g) engine" where
  "run_frames activate overlap [] s = Inr s"
| "run_frames activate overlap (h # hs) s =
     (if 0 < length (birds s)
      then (case frame activate overlap h s of
              Inl e \<Rightarrow> Inl e
            | Inr s' \<Rightarrow> run_frames activate overlap hs s')
      else Inr s)"

text \<open>
  The first part of \<open>run_ne\<close> (lines 210 to 226). \<open>create\<close> is
  \<open>neat.nn.FeedForwardNetwork.create(genome, config)\<close>, \<open>batch\<close> the list of pairs of a key
  and a genome that NEAT passes in, \<open>h\<close> the height that the first pipe draws. The new
  birds have no further attributes.
\<close>

fun add_agents ::
  "('g \<Rightarrow> 'n) \<Rightarrow> surface list \<Rightarrow> (int \<times> 'g) list \<Rightarrow> (unit, 'n, 'g) engine
     \<Rightarrow> error + (unit, 'n, 'g) engine" where
  "add_agents create bird_images [] s = Inr s"
| "add_agents create bird_images ((key, genome) # batch) s =
     (case Bird (BIRD_POSITION_X, of_int BIRD_POSITION_Y) bird_images of
        Inl e \<Rightarrow> Inl e
      | Inr b \<Rightarrow>
          add_agents create bird_images batch
            (s\<lparr>fitness := (fitness s)(genome := 0),
               networks := networks s @ [create genome],
               birds := birds s @ [b],
               genomes := genomes s @ [genome]\<rparr>))"

definition run_ne_init ::
  "('g \<Rightarrow> 'n) \<Rightarrow> int \<Rightarrow> (int \<times> 'g) list \<Rightarrow> (unit, 'n, 'g) engine
     \<Rightarrow> error + (unit, 'n, 'g) engine" where
  "run_ne_init create h batch s =
     (let s0 = s\<lparr>score := 0\<rparr>; bird_images = get_assets s0 BIRD_IMAGE
      in case get_assets s0 PIPE_IMAGE of
           [] \<Rightarrow> Inl IndexError
         | pipe_image # _ \<Rightarrow>
             (case get_assets s0 BASE_IMAGE of
                [] \<Rightarrow> Inl IndexError
              | base_img # _ \<Rightarrow>
                  (case get_assets s0 BACKGROUND_IMAGE of
                     [] \<Rightarrow> Inl IndexError
                   | background # _ \<Rightarrow>
                       (case add_agents create bird_images batch s0 of
                          Inl e \<Rightarrow> Inl e
                        | Inr s1 \<Rightarrow>
                            Inr (s1\<lparr>pipes := [Pipe PIPE_POSITION_X pipe_image h],
                                    base := Base BASE_POSITION_Y base_img\<rparr>)))))"

text \<open>
  \<open>run_ne\<close> as a whole: the first part, then the loop, with the heights that the pipes
  draw (\<open>h\<close> for the first pipe, one of \<open>hs\<close> for every frame).
\<close>

definition run_ne ::
  "('g \<Rightarrow> 'n) \<Rightarrow> ('n \<Rightarrow> rat \<times> rat \<times> rat \<Rightarrow> rat)
     \<Rightarrow> (surface \<Rightarrow> surface \<Rightarrow> int \<times> int \<Rightarrow> (int \<times> int) option)
     \<Rightarrow> int \<Rightarrow> int list \<Rightarrow> (int \<times> 'g) list \<Rightarrow> (unit, 'n, 'g) engine
     \<Rightarrow> error + (unit, 'n, 'g) engine" where
  "run_ne create activate overlap h hs batch s =
     (case run_ne_init create h batch s of
        Inl e \<Rightarrow> Inl e
      | Inr s' \<Rightarrow> run_frames activate overlap hs s')"

section \<open>Predicates on the state\<close>

text \<open>The three parallel lists have one length.\<close>

definition same_length :: "('b, 'n, 'g) engine \<Rightarrow> bool" where
  "same_length s \<longleftrightarrow>
     length (birds s) = length (networks s) \<and> length (networks s) = length (genomes s)"

text \<open>
  The entries at every index belong to one agent. The agent of a bird is what the bird
  carries as its further attributes (\<open>bird.more\<close>), which no method of \<open>Bird\<close> touches;
  \<open>net_agent\<close> and \<open>gen_agent\<close> name the agent of a network and of a genome. The lists
  are aligned when the three lists of agents, read off index by index, are the same list;
  then they also have one length.
\<close>

definition aligned :: "('n \<Rightarrow> 'b) \<Rightarrow> ('g \<Rightarrow> 'b) \<Rightarrow> ('b, 'n, 'g) engine \<Rightarrow> bool" where
  "aligned net_agent gen_agent s \<longleftrightarrow>
     map bird.more (birds s) = map gen_agent (genomes s)
     \<and> map net_agent (networks s) = map gen_agent (genomes s)"

text \<open>
  What the collision scan keeps of a state in which no genome is listed twice: the genomes
  that remain were there before, none twice, with the fitness they had; the score and the
  assets are as they were.
\<close>

definition keeps :: "('b, 'n, 'g) engine \<Rightarrow> ('b, 'n, 'g) engine \<Rightarrow> bool" where
  "keeps s s' \<longleftrightarrow>
     distinct (genomes s') \<and> set (genomes s') \<subseteq> set (genomes s)
     \<and> (\<forall>g\<in>set (genomes s'). fitness s' g = fitness s g)
     \<and> score s' = score s \<and> assets s' = assets s"

text \<open>
  The tuple of lines 367 to 373 for a bird and the target pipe: the vertical position, its
  distance to the top of the bottom pipe, and its distance to the height of the pipe.
\<close>

definition sensor_vector :: "'a bird_scheme \<Rightarrow> pipe \<Rightarrow> rat \<times> rat \<times> rat" where
  "sensor_vector b tp =
     (snd (position b),
      \<bar>snd (position b) - of_int (fst (position_y tp))\<bar>,
      \<bar>snd (position b) - of_int (height tp)\<bar>)"

text \<open>What one pass of the loop of \<open>emulate_birds\<close> makes of a bird.\<close>

definition move_then_decide ::
  "('n \<Rightarrow> rat \<times> rat \<times> rat \<Rightarrow> rat) \<Rightarrow> 'n \<Rightarrow> pipe \<Rightarrow> 'a bird_scheme \<Rightarrow> 'a bird_scheme" where
  "move_then_decide activate n tp b =
     (let b1 = move b
      in if DECISION_BORDER < activate n (sensor_vector b1 tp) then jump b1 else b1)"

text \<open>
  The order in which the specification lists the steps, for comparison: the sensor vector
  of the bird as the frame finds it, the decision, the impulse if the output exceeds the
  threshold, and only then the physics.
\<close>

definition decide_then_move ::
  "('n \<Rightarrow> rat \<times> rat \<times> rat \<Rightarrow> rat) \<Rightarrow> 'n \<Rightarrow> pipe \<Rightarrow> 'a bird_scheme \<Rightarrow> 'a bird_scheme" where
  "decide_then_move activate n tp b =
     move (if DECISION_BORDER < activate n (sensor_vector b tp) then jump b else b)"

section \<open>Concrete objects\<close>

text \<open>A bird image, a pipe image, and the bird that \<open>run_ne\<close> creates from the former.\<close>

definition bird_surface :: surface where
  "bird_surface = \<lparr>get_width = 68, get_height = 48, pixels = [(0, 0)]\<rparr>"

definition pipe_surface :: surface where
  "pipe_surface = \<lparr>get_width = 100, get_height = 640, pixels = [(0, 0)]\<rparr>"

definition new_bird :: bird where
  "new_bird =
     \<lparr>position = (220, 350), rotation = 0, velocity = 0, jump_position = 350,
      animation_frame = 0, tick_frame = 0, images = [bird_surface], image = bird_surface\<rparr>"

text \<open>A bird whose lower edge is exactly on the line \<open>BIRD_OFFSET\<close>: \<open>632 + 48 = 680\<close>.\<close>

definition low_bird :: bird where
  "low_bird = new_bird\<lparr>position := (220, 632)\<rparr>"

text \<open>
  A base image; a bird at height \<open>y\<close> that carries the number of its agent; a pygame
  \<open>overlap\<close> that never finds a common pixel and one that always does; a network that
  never decides to jump and one that always does (outputs 0.3 and 0.6); the assets that
  \<open>main.py\<close> loads; a population of two agents at height \<open>y\<close>, in front of one pipe at
  \<open>x\<close>, where network \<open>k\<close> and genome \<open>k\<close> belong to agent \<open>k\<close>; and the engine before
  \<open>run_ne\<close> has been called.
\<close>

definition base_surface :: surface where
  "base_surface = \<lparr>get_width = 672, get_height = 224, pixels = [(0, 0)]\<rparr>"

definition agent :: "rat \<Rightarrow> nat \<Rightarrow> nat bird_scheme" where
  "agent y a = bird.extend (new_bird\<lparr>position := (220, y)\<rparr>) a"

definition no_overlap :: "surface \<Rightarrow> surface \<Rightarrow> int \<times> int \<Rightarrow> (int \<times> int) option" where
  "no_overlap a b offset = None"

definition always_overlap :: "surface \<Rightarrow> surface \<Rightarrow> int \<times> int \<Rightarrow> (int \<times> int) option" where
  "always_overlap a b offset = Some (0, 0)"

definition never_jump :: "nat \<Rightarrow> rat \<times> rat \<times> rat \<Rightarrow> rat" where
  "never_jump n v = 3 / 10"

definition always_jump :: "nat \<Rightarrow> rat \<times> rat \<times> rat \<Rightarrow> rat" where
  "always_jump n v = 6 / 10"

definition loaded_assets :: "(AssetType \<times> surface) list" where
  "loaded_assets =
     [(BIRD_IMAGE, bird_surface), (BASE_IMAGE, base_surface),
      (BACKGROUND_IMAGE, base_surface), (PIPE_IMAGE, pipe_surface)]"

definition two_agents :: "rat \<Rightarrow> int \<Rightarrow> (nat, nat, nat) engine" where
  "two_agents y x =
     \<lparr>assets = loaded_assets,
      birds = [agent y 1, agent y 2],
      pipes = [Pipe x pipe_surface 200],
      base = Base 650 base_surface,
      score = 0,
      networks = [1, 2],
      genomes = [1, 2],
      fitness = (\<lambda>g. 0)\<rparr>"

definition loaded_engine :: "(unit, nat, nat) engine" where
  "loaded_engine =
     \<lparr>assets = loaded_assets, birds = [], pipes = [], base = Base 650 base_surface,
      score = 0, networks = [], genomes = [], fitness = (\<lambda>g. 0)\<rparr>"

text \<open>
  A pipe image that is only 4 wide, the engine that has loaded it in place of the other
  pipe image, and a network that decides to jump whenever its bird is below the height
  350 at which the birds start.
\<close>

definition narrow_surface :: surface where
  "narrow_surface = \<lparr>get_width = 4, get_height = 640, pixels = [(0, 0)]\<rparr>"

definition narrow_engine :: "(unit, nat, nat) engine" where
  "narrow_engine =
     \<lparr>assets = [(BIRD_IMAGE, bird_surface), (BASE_IMAGE, base_surface),
                (BACKGROUND_IMAGE, base_surface), (PIPE_IMAGE, narrow_surface)],
      birds = [], pipes = [], base = Base 650 base_surface,
      score = 0, networks = [], genomes = [], fitness = (\<lambda>g. 0)\<rparr>"

definition hover :: "nat \<Rightarrow> rat \<times> rat \<times> rat \<Rightarrow> rat" where
  "hover n v = (if 350 < fst v then 1 else 0)"

text \<open>The equations that evaluate the engine on these objects.\<close>

lemmas eval_defs = agent_def no_overlap_def always_overlap_def never_jump_def always_jump_def
  hover_def two_agents_def loaded_engine_def narrow_engine_def narrow_surface_def
  loaded_assets_def new_bird_def bird_surface_def
  pipe_surface_def base_surface_def bird.extend_def Pipe_def Base_def flip_vertical_def

lemmas engine_defs = move_pipes_def birds_loop.simps border_loop.simps scan_step_def
  border_step_def on_collision_def remove_agent_def pop_def spawn_pipe_def reward_pass_def
  get_assets_def emulate_birds_def emulate_loop.simps emulate_bird_def current_pipe_index_def
  draw_window_def draw_bird_def frame_def move_base_def run_ne_init_def Bird_def
  is_collision_def truth_value_def is_bird_passed_def is_window_passed_def hits_border_def
  move_pipe_def move_def jump_def distance_formula_def py_round_def Let_def

lemmas constant_defs = BIRD_OFFSET_def BIRD_JUMP_VELOCITY_def BIRD_TERMINAL_VELOCITY_def
  BIRD_MAX_ROTATION_def PIPE_GAP_def PIPE_VELOCITY_def BASE_VELOCITY_def BIRD_POSITION_X_def
  BIRD_POSITION_Y_def BASE_POSITION_Y_def PIPE_POSITION_X_def FITNESS_INCREASE_PASS_def
  FITNESS_INCREASE_LIVE_def DECISION_BORDER_def FITNESS_DECREASE_def

section \<open>Properties of the entities\<close>

subsection \<open>The bird\<close>

lemma Bird_new_bird:
  "Bird (BIRD_POSITION_X, of_int BIRD_POSITION_Y) [bird_surface] = Inr new_bird"
  by (simp add: Bird_def new_bird_def BIRD_POSITION_X_def BIRD_POSITION_Y_def)

lemma move_funpow_tick: "tick_frame ((move ^^ k) b) = tick_frame b + int k"
  by (induction k) (simp_all add: move_def Let_def)

lemma move_funpow_velocity: "velocity ((move ^^ k) b) = velocity b"
  by (induction k) (simp_all add: move_def Let_def)

lemma displacement_eq:
  "displacement b = min (distance_formula (velocity b) (tick_frame b + 1)) 16"
  by (simp add: displacement_def move_def Let_def BIRD_TERMINAL_VELOCITY_def min_def)

lemma displacements_nth:
  "k < n \<Longrightarrow>
   displacements n b ! k = min (distance_formula (velocity b) (tick_frame b + int k + 1)) 16"
  by (simp add: displacements_def displacement_eq move_funpow_tick move_funpow_velocity)

lemma formula_step:
  "distance_formula v (t + 1) - distance_formula v t = of_int v + 3 * of_int t + 3 / 2"
  by (simp add: distance_formula_def power2_eq_square algebra_simps)

lemma formula_mono:
  assumes "0 \<le> 2 * v + 6 * t + 3"
  shows "distance_formula v t \<le> distance_formula v (t + 1)"
proof -
  have "(0::rat) \<le> of_int (2 * v + 6 * t + 3)"
    using assms by (simp only: of_int_0_le_iff)
  then have "(0::rat) \<le> of_int v + 3 * of_int t + 3 / 2"
    by simp
  then show ?thesis
    using formula_step [of v t] by linarith
qed

lemma displacements_sorted:
  assumes "0 \<le> 2 * velocity b + 6 * tick_frame b + 9"
  shows "sorted (displacements n b)"
proof -
  have "displacements n b ! i \<le> displacements n b ! Suc i" if "Suc i < n" for i
  proof -
    have "0 \<le> 2 * velocity b + 6 * (tick_frame b + int i + 1) + 3"
      using assms by simp
    from formula_mono [OF this]
    have "distance_formula (velocity b) (tick_frame b + int i + 1)
        \<le> distance_formula (velocity b) (tick_frame b + int (Suc i) + 1)"
      by (simp add: add.commute add.left_commute)
    then show ?thesis
      using that by (simp add: displacements_nth min_def)
  qed
  then show ?thesis
    by (simp add: sorted_iff_nth_Suc displacements_def)
qed

lemma displacements_after_jump:
  "displacements 3 (jump new_bird) = [- 17 / 2, - 14, - 33 / 2]"
  by (simp add: displacements_def displacement_def move_def jump_def new_bird_def Let_def
      distance_formula_def BIRD_TERMINAL_VELOCITY_def BIRD_JUMP_VELOCITY_def upt_rec
      numeral_3_eq_3)

text \<open>
  C6, as the claim states it, fails: right after an impulse the displacements of the
  following calls of \<open>move\<close> go down, \<open>-8.5\<close> and then \<open>-14\<close>.
\<close>

theorem displacements_after_jump_not_sorted:
  "\<not> sorted (displacements 2 (jump new_bird))"
  by (simp add: displacements_def displacement_def move_def jump_def new_bird_def Let_def
      distance_formula_def BIRD_TERMINAL_VELOCITY_def BIRD_JUMP_VELOCITY_def upt_rec
      numeral_2_eq_2)

text \<open>
  C6, amended: over \<open>n\<close> calls of \<open>move\<close> with no impulse between them, the displacement
  of call \<open>k\<close> is the formula \<open>velocity * t + 1.5 * t\<^sup>2\<close> at \<open>t = tick_frame + k + 1\<close>, capped
  at the terminal value 16 (so it is 16 whenever the formula reaches or exceeds 16); and the
  displacements are non-decreasing when \<open>2 * velocity + 6 * tick_frame + 9 \<ge> 0\<close> holds at
  the first call, which is so for a bird that has never jumped, and from the second tick
  after an impulse on.
\<close>

theorem move_displacements:
  "(\<forall>k<n. displacements n b ! k =
      (if 16 \<le> distance_formula (velocity b) (tick_frame b + int k + 1) then 16
       else distance_formula (velocity b) (tick_frame b + int k + 1)))
   \<and> (0 \<le> 2 * velocity b + 6 * tick_frame b + 9 \<longrightarrow> sorted (displacements n b))"
  by (simp add: displacements_nth displacements_sorted min_def)

theorem move_displacements_witness:
  "(0::int) \<le> 2 * velocity new_bird + 6 * tick_frame new_bird + 9
   \<and> sorted (displacements 5 new_bird)
   \<and> distance_formula (velocity new_bird) (tick_frame new_bird + int 3 + 1) = 24
   \<and> displacements 5 new_bird ! 3 = 16"
proof -
  have v: "velocity new_bird = 0" and t: "tick_frame new_bird = 0"
    by (simp_all add: new_bird_def)
  have f: "distance_formula (velocity new_bird) (tick_frame new_bird + int 3 + 1) = 24"
    by (simp add: v t distance_formula_def)
  have "displacements 5 new_bird ! 3 = 16"
    using move_displacements [of 5 new_bird] f by simp
  moreover have "sorted (displacements 5 new_bird)"
    using move_displacements [of 5 new_bird] by (simp add: v t)
  ultimately show ?thesis
    using f by (simp add: v t)
qed

text \<open>
  C9, as the claim states it, fails on the line itself: a bird whose vertical position
  plus sprite height equals the bound 680, without exceeding it, hits the border.
\<close>

theorem hits_border_on_the_bound:
  "hits_border low_bird
   \<and> \<not> (of_int BIRD_OFFSET < snd (position low_bird) + of_int (get_height (image low_bird))
        \<or> snd (position low_bird) < 0)"
  by (simp add: hits_border_def low_bird_def new_bird_def bird_surface_def BIRD_OFFSET_def)

text \<open>
  C9, amended: \<open>hits_border\<close> is true if and only if the vertical position plus the sprite
  height reaches or exceeds the bound 680, or the vertical position is negative. The
  method only reads the bird, which is why it is a function from the bird to a truth value.
\<close>

theorem hits_border_iff:
  "hits_border b \<longleftrightarrow>
     680 \<le> snd (position b) + of_int (get_height (image b)) \<or> snd (position b) < 0"
  by (simp add: hits_border_def BIRD_OFFSET_def)

text \<open>
  C10: \<open>jump\<close> is idempotent. Two calls in a row leave every attribute of the bird as one
  call does.
\<close>

theorem jump_idempotent: "jump (jump b) = jump b"
  by (simp add: jump_def)

subsection \<open>The pipe\<close>

lemma move_pipe_funpow_x:
  "position_x ((move_pipe ^^ n) p) = position_x p - 5 * int n"
  by (induction n) (simp_all add: move_pipe_def PIPE_VELOCITY_def)

lemma move_pipe_funpow_mini: "mini_pipes ((move_pipe ^^ n) p) = mini_pipes p"
  by (induction n) (simp_all add: move_pipe_def)

lemma window_passed_after:
  "is_window_passed ((move_pipe ^^ n) p)
     \<longleftrightarrow> (position_x p + get_width (fst (mini_pipes p))) div 5 < int n"
  unfolding is_window_passed_def move_pipe_funpow_x move_pipe_funpow_mini
  by linarith

text \<open>
  C8, as the claim states it, fails: a pipe 100 wide that starts at 650 is not yet off
  the window after \<open>(650 + 100) / 5 = 150\<close> calls of \<open>move\<close>, where it stands at \<open>-100\<close>.
\<close>

theorem window_not_passed_after_150:
  "\<not> is_window_passed ((move_pipe ^^ 150) (Pipe PIPE_POSITION_X pipe_surface 200))"
  by (simp add: window_passed_after Pipe_def PIPE_POSITION_X_def pipe_surface_def)

text \<open>
  C8, amended: \<open>is_window_passed\<close> is true exactly when the horizontal position plus the
  width of the pipe is negative. For a pipe created at 650 and moved once per tick, it is
  false after \<open>n\<close> calls of \<open>move\<close> for every \<open>n\<close> up to \<open>(650 + width) div 5\<close> and true for
  every larger \<open>n\<close>: it first becomes true after \<open>(650 + width) div 5 + 1\<close> calls.
\<close>

theorem window_passed_first:
  "(is_window_passed p \<longleftrightarrow> position_x p + get_width (fst (mini_pipes p)) < 0)
   \<and> (is_window_passed ((move_pipe ^^ n) (Pipe PIPE_POSITION_X img h))
        \<longleftrightarrow> (650 + get_width img) div 5 < int n)"
  by (simp add: window_passed_after Pipe_def PIPE_POSITION_X_def) (simp add: is_window_passed_def)

section \<open>Properties of the engine\<close>

subsection \<open>Removal by index\<close>

lemma pop_map: "pop i xs = Inr ys \<Longrightarrow> pop i (map f xs) = Inr (map f ys)"
  by (auto simp: pop_def take_map drop_map split: if_splits)

lemma pop_Inr_iff: "pop i xs = Inr ys \<longleftrightarrow> i < length xs \<and> ys = take i xs @ drop (Suc i) xs"
  by (auto simp: pop_def)

lemma remove_agent_Inr:
  "remove_agent i s = Inr s' \<longleftrightarrow>
     i < length (birds s) \<and> i < length (networks s) \<and> i < length (genomes s)
     \<and> s' = s\<lparr>birds := take i (birds s) @ drop (Suc i) (birds s),
              networks := take i (networks s) @ drop (Suc i) (networks s),
              genomes := take i (genomes s) @ drop (Suc i) (genomes s)\<rparr>"
  by (auto simp: remove_agent_def pop_def split: sum.splits if_splits)

lemma remove_agent_total:
  "same_length s \<Longrightarrow> i < length (birds s) \<Longrightarrow> \<exists>s'. remove_agent i s = Inr s'"
  by (simp add: remove_agent_Inr same_length_def)

lemma on_collision_Inr:
  "on_collision i s = Inr s' \<longleftrightarrow>
     i < length (birds s) \<and> i < length (networks s) \<and> i < length (genomes s)
     \<and> s' = s\<lparr>fitness := (fitness s)(genomes s ! i := fitness s (genomes s ! i) - 1),
              birds := take i (birds s) @ drop (Suc i) (birds s),
              networks := take i (networks s) @ drop (Suc i) (networks s),
              genomes := take i (genomes s) @ drop (Suc i) (genomes s)\<rparr>"
  by (auto simp: on_collision_def remove_agent_Inr FITNESS_DECREASE_def)

text \<open>
  C5: when the scan finds a collision between the pipe and the bird at index \<open>i\<close> (in a
  state whose three lists have one length), the step succeeds; in the store of fitness
  values exactly the genome at index \<open>i\<close> has changed, by \<open>-1\<close>; each of the three lists
  has lost exactly its entry at index \<open>i\<close>, the other entries stay in their order; and the
  lists still have one length.
\<close>

theorem collision_penalty:
  assumes "same_length s" "i < length (birds s)" "is_collision ov p (birds s ! i)"
  shows "\<exists>p' c' s'. scan_step ov i p c s = Inr (p', c', s')
      \<and> fitness s' = (fitness s)(genomes s ! i := fitness s (genomes s ! i) - 1)
      \<and> birds s' = take i (birds s) @ drop (Suc i) (birds s)
      \<and> networks s' = take i (networks s) @ drop (Suc i) (networks s)
      \<and> genomes s' = take i (genomes s) @ drop (Suc i) (genomes s)
      \<and> same_length s'"
proof -
  define s' where "s' = s\<lparr>fitness := (fitness s)(genomes s ! i := fitness s (genomes s ! i) - 1),
              birds := take i (birds s) @ drop (Suc i) (birds s),
              networks := take i (networks s) @ drop (Suc i) (networks s),
              genomes := take i (genomes s) @ drop (Suc i) (genomes s)\<rparr>"
  have oc: "on_collision i s = Inr s'"
    using assms(1,2) unfolding s'_def by (simp add: on_collision_Inr same_length_def)
  have "\<exists>p' c'. scan_step ov i p c s = Inr (p', c', s')"
    using assms(3) oc by (cases "is_passed p") (simp_all add: scan_step_def Let_def is_bird_passed_def)
  then obtain p' c' where st: "scan_step ov i p c s = Inr (p', c', s')"
    by blast
  have sl: "same_length s'"
    using assms(1,2) by (simp add: same_length_def s'_def)
  have flds: "fitness s' = (fitness s)(genomes s ! i := fitness s (genomes s ! i) - 1)"
    "birds s' = take i (birds s) @ drop (Suc i) (birds s)"
    "networks s' = take i (networks s) @ drop (Suc i) (networks s)"
    "genomes s' = take i (genomes s) @ drop (Suc i) (genomes s)"
    by (simp_all add: s'_def)
  from st flds sl show ?thesis
    by (intro exI [of _ p'] exI [of _ c'] exI [of _ s'] conjI)
qed

subsection \<open>The parallel lists\<close>

lemma aligned_same_length: "aligned na ga s \<Longrightarrow> same_length s"
  unfolding aligned_def same_length_def
  by (metis length_map)

lemma remove_agent_aligned:
  "aligned na ga s \<Longrightarrow> remove_agent i s = Inr s' \<Longrightarrow> aligned na ga s'"
  by (auto simp: remove_agent_Inr aligned_def simp flip: take_map drop_map)

lemma remove_agent_total_aligned:
  "aligned na ga s \<Longrightarrow> i < length (birds s) \<Longrightarrow> \<exists>s'. remove_agent i s = Inr s' \<and> aligned na ga s'"
  using remove_agent_total [OF aligned_same_length] remove_agent_aligned by blast

lemma on_collision_aligned:
  "aligned na ga s \<Longrightarrow> on_collision i s = Inr s' \<Longrightarrow> aligned na ga s'"
  by (auto simp: on_collision_Inr aligned_def simp flip: take_map drop_map)

lemma scan_step_aligned:
  "aligned na ga s \<Longrightarrow> scan_step ov i p c s = Inr (p', c', s') \<Longrightarrow> aligned na ga s'"
  by (auto simp: scan_step_def Let_def split: sum.splits if_splits prod.splits
      dest: on_collision_aligned)

lemma birds_loop_aligned:
  "aligned na ga s \<Longrightarrow> birds_loop ov i p c s = Inr (p', c', s') \<Longrightarrow> aligned na ga s'"
proof (induction ov i p c s rule: birds_loop.induct)
  case (1 ov i p c s)
  show ?case
  proof (cases "i < length (birds s)")
    case True
    with "1.prems"(2) obtain p1 c1 s1 where
      st: "scan_step ov i p c s = Inr (p1, c1, s1)" and
      rest: "birds_loop ov (Suc i) p1 c1 s1 = Inr (p', c', s')"
      by (subst (asm) birds_loop.simps) (auto split: sum.splits)
    from "1.IH" [OF True st refl refl scan_step_aligned [OF "1.prems"(1) st] rest]
    show ?thesis .
  next
    case False
    with "1.prems" show ?thesis
      by (subst (asm) birds_loop.simps) simp
  qed
qed

lemma pipes_loop_aligned:
  "aligned na ga s \<Longrightarrow> pipes_loop ov ps c s = Inr (marked, c', s') \<Longrightarrow> aligned na ga s'"
proof (induction ps arbitrary: c s marked c' s')
  case Nil
  then show ?case by simp
next
  case (Cons p ps)
  from Cons.prems(2) obtain p1 c1 s1 m2 where
    a: "birds_loop ov 0 p c s = Inr (p1, c1, s1)" and
    b: "pipes_loop ov ps c1 s1 = Inr (m2, c', s')"
    by (auto split: sum.splits)
  from Cons.IH [OF birds_loop_aligned [OF Cons.prems(1) a] b] show ?case .
qed

lemma border_loop_aligned:
  "aligned na ga s \<Longrightarrow> border_loop i s = Inr s' \<Longrightarrow> aligned na ga s'"
proof (induction i s rule: border_loop.induct)
  case (1 i s)
  show ?case
  proof (cases "i < length (birds s)")
    case True
    with "1.prems"(2) obtain s1 where
      st: "border_step i s = Inr s1" and rest: "border_loop (Suc i) s1 = Inr s'"
      by (subst (asm) border_loop.simps) (auto split: sum.splits)
    have "aligned na ga s1"
      using st "1.prems"(1) by (auto simp: border_step_def split: if_splits dest: remove_agent_aligned)
    from "1.IH" [OF True st this rest] show ?thesis .
  next
    case False
    with "1.prems" show ?thesis
      by (subst (asm) border_loop.simps) simp
  qed
qed

lemma move_pipes_aligned:
  "aligned na ga s \<Longrightarrow> move_pipes ov h s = Inr s' \<Longrightarrow> aligned na ga s'"
proof -
  assume al: "aligned na ga s" and mp: "move_pipes ov h s = Inr s'"
  from mp obtain marked c s1 marked' s2 where
    a: "pipes_loop ov (pipes s) False s = Inr (marked, c, s1)" and
    b: "(if c then spawn_pipe h marked s1 else Inr (marked, s1)) = Inr (marked', s2)" and
    d: "border_loop 0 (s2\<lparr>pipes := map fst (filter (\<lambda>m. \<not> snd m) marked')\<rparr>) = Inr s'"
    by (auto simp: move_pipes_def split: sum.splits)
  have "aligned na ga s1" using pipes_loop_aligned [OF al a] .
  then have "aligned na ga s2"
    using b by (auto simp: spawn_pipe_def aligned_def split: if_splits list.splits)
  then have "aligned na ga (s2\<lparr>pipes := map fst (filter (\<lambda>m. \<not> snd m) marked')\<rparr>)"
    by (simp add: aligned_def)
  from border_loop_aligned [OF this d] show ?thesis .
qed

lemma more_move [simp]: "bird.more (move b) = bird.more b"
  by (simp add: move_def Let_def)

lemma more_jump [simp]: "bird.more (jump b) = bird.more b"
  by (simp add: jump_def)

lemma map_more_update:
  "i < length bs \<Longrightarrow> bird.more b' = bird.more (bs ! i) \<Longrightarrow> map bird.more (bs[i := b']) = map bird.more bs"
  by (simp add: map_update list_update_same_conv)

lemma emulate_bird_aligned:
  assumes "aligned na ga s" "i < length (birds s)" "emulate_bird act k i s = Inr s'"
  shows "aligned na ga s'"
  using assms
  by (auto simp: emulate_bird_def Let_def aligned_def map_more_update split: if_splits)

lemma emulate_loop_aligned:
  "aligned na ga s \<Longrightarrow> emulate_loop act k i s = Inr s' \<Longrightarrow> aligned na ga s'"
proof (induction act k i s rule: emulate_loop.induct)
  case (1 act k i s)
  show ?case
  proof (cases "i < length (birds s)")
    case True
    with "1.prems"(2) obtain s1 where
      st: "emulate_bird act k i s = Inr s1" and rest: "emulate_loop act k (Suc i) s1 = Inr s'"
      by (subst (asm) emulate_loop.simps) (auto split: sum.splits)
    from "1.IH" [OF True st emulate_bird_aligned [OF "1.prems"(1) True st] rest]
    show ?thesis .
  next
    case False
    with "1.prems" show ?thesis
      by (subst (asm) emulate_loop.simps) simp
  qed
qed

lemma emulate_birds_aligned:
  "aligned na ga s \<Longrightarrow> emulate_birds act s = Inr s' \<Longrightarrow> aligned na ga s'"
  unfolding emulate_birds_def by (rule emulate_loop_aligned)

lemma draw_all_more: "draw_all bs = Inr bs' \<Longrightarrow> map bird.more bs' = map bird.more bs"
proof (induction bs arbitrary: bs')
  case Nil
  then show ?case by simp
next
  case (Cons b bs)
  then show ?case
    by (auto simp: draw_bird_def Let_def split: sum.splits if_splits)
qed

lemma frame_aligned:
  assumes "aligned na ga s" "frame act ov h s = Inr s'"
  shows "aligned na ga s'"
proof -
  from assms(2) obtain s1 s2 where
    a: "emulate_birds act (s\<lparr>base := move_base (base s)\<rparr>) = Inr s1" and
    b: "move_pipes ov h s1 = Inr s2" and
    c: "draw_window s2 = Inr s'"
    by (auto simp: frame_def split: sum.splits)
  have "aligned na ga (s\<lparr>base := move_base (base s)\<rparr>)"
    using assms(1) by (simp add: aligned_def)
  then have "aligned na ga s1"
    using a unfolding emulate_birds_def by (rule emulate_loop_aligned)
  then have "aligned na ga s2"
    using b by (rule move_pipes_aligned)
  then show ?thesis
    using c by (auto simp: draw_window_def aligned_def split: sum.splits dest: draw_all_more)
qed

lemma run_frames_aligned:
  "aligned na ga s \<Longrightarrow> run_frames act ov hs s = Inr s' \<Longrightarrow> aligned na ga s'"
proof (induction hs arbitrary: s)
  case Nil
  then show ?case by simp
next
  case (Cons h hs)
  show ?case
  proof (cases "0 < length (birds s)")
    case True
    with Cons.prems(2) obtain s1 where
      a: "frame act ov h s = Inr s1" and b: "run_frames act ov hs s1 = Inr s'"
      by (auto split: sum.splits)
    from Cons.IH [OF frame_aligned [OF Cons.prems(1) a] b] show ?thesis .
  next
    case False
    with Cons.prems show ?thesis by simp
  qed
qed

lemma add_agents_lists:
  "add_agents create imgs batch s = Inr s' \<Longrightarrow>
     networks s' = networks s @ map (\<lambda>kg. create (snd kg)) batch
     \<and> genomes s' = genomes s @ map snd batch
     \<and> length (birds s') = length (birds s) + length batch
     \<and> assets s' = assets s"
proof (induction batch arbitrary: s)
  case Nil
  then show ?case by simp
next
  case (Cons kg batch)
  obtain key g where kg: "kg = (key, g)" by (cases kg)
  from Cons.prems obtain b where
    b: "Bird (BIRD_POSITION_X, of_int BIRD_POSITION_Y) imgs = Inr b" and
    rest: "add_agents create imgs batch
            (s\<lparr>fitness := (fitness s)(g := 0), networks := networks s @ [create g],
               birds := birds s @ [b], genomes := genomes s @ [g]\<rparr>) = Inr s'"
    unfolding kg by (auto split: sum.splits)
  from Cons.IH [OF rest] show ?case
    by (simp add: kg)
qed

lemma run_ne_init_lists:
  assumes "same_length s" "run_ne_init create h batch s = Inr s'"
  shows "same_length s'
     \<and> networks s' = networks s @ map (\<lambda>kg. create (snd kg)) batch
     \<and> genomes s' = genomes s @ map snd batch
     \<and> length (birds s') = length (birds s) + length batch"
proof -
  from assms(2) obtain s1 pimg bimg where
    a: "add_agents create (get_assets (s\<lparr>score := 0\<rparr>) BIRD_IMAGE) batch (s\<lparr>score := 0\<rparr>) = Inr s1" and
    b: "s' = s1\<lparr>pipes := [Pipe PIPE_POSITION_X pimg h], base := Base BASE_POSITION_Y bimg\<rparr>"
    by (auto simp: run_ne_init_def Let_def split: list.splits sum.splits)
  from add_agents_lists [OF a] assms(1) show ?thesis
    by (simp add: b same_length_def)
qed

text \<open>
  C1: the three lists stay index-aligned. The first part of \<open>run_ne\<close> appends to lists
  of one length the genomes of the batch, the networks created from these genomes in the
  same order, and as many birds, and the lists have one length again. In every state
  whose lists are aligned (entry by entry the same agent), the lists have one length;
  every removal at an index of the bird list succeeds and leaves the lists aligned; and
  so do \<open>emulate_birds\<close>, \<open>move_pipes\<close>, a whole frame, and any number of frames.
\<close>

theorem parallel_lists_aligned:
  "(same_length u \<and> run_ne_init create h0 batch u = Inr u' \<longrightarrow>
      same_length u'
      \<and> genomes u' = genomes u @ map snd batch
      \<and> networks u' = networks u @ map (\<lambda>kg. create (snd kg)) batch
      \<and> length (birds u') = length (birds u) + length batch)
   \<and> (aligned na ga s \<longrightarrow>
        same_length s
        \<and> (\<forall>i<length (birds s). \<exists>s'. remove_agent i s = Inr s' \<and> aligned na ga s')
        \<and> (\<forall>s'. emulate_birds activate s = Inr s' \<longrightarrow> aligned na ga s')
        \<and> (\<forall>s'. move_pipes overlap h s = Inr s' \<longrightarrow> aligned na ga s')
        \<and> (\<forall>s'. frame activate overlap h s = Inr s' \<longrightarrow> aligned na ga s')
        \<and> (\<forall>s'. run_frames activate overlap hs s = Inr s' \<longrightarrow> aligned na ga s'))"
proof (intro conjI impI allI)
  assume a: "same_length u \<and> run_ne_init create h0 batch u = Inr u'"
  then have sl: "same_length u" and run: "run_ne_init create h0 batch u = Inr u'"
    by simp_all
  note r = run_ne_init_lists [OF sl run]
  show "same_length u'" using r by simp
  show "genomes u' = genomes u @ map snd batch" using r by simp
  show "networks u' = networks u @ map (\<lambda>kg. create (snd kg)) batch" using r by simp
  show "length (birds u') = length (birds u) + length batch" using r by simp
next
  assume "aligned na ga s"
  then show "same_length s" by (rule aligned_same_length)
next
  fix i assume "aligned na ga s" "i < length (birds s)"
  then show "\<exists>s'. remove_agent i s = Inr s' \<and> aligned na ga s'"
    by (rule remove_agent_total_aligned)
next
  fix s' assume "aligned na ga s" "emulate_birds activate s = Inr s'"
  then show "aligned na ga s'" by (rule emulate_birds_aligned)
next
  fix s' assume "aligned na ga s" "move_pipes overlap h s = Inr s'"
  then show "aligned na ga s'" by (rule move_pipes_aligned)
next
  fix s' assume "aligned na ga s" "frame activate overlap h s = Inr s'"
  then show "aligned na ga s'" by (rule frame_aligned)
next
  fix s' assume "aligned na ga s" "run_frames activate overlap hs s = Inr s'"
  then show "aligned na ga s'" by (rule run_frames_aligned)
qed

subsection \<open>Sensors and decisions\<close>

lemma position_jump: "position (jump b) = position b"
  by (simp add: jump_def)

lemma emulate_bird_Inr:
  assumes "emulate_bird act k i s = Inr s'" "i < length (birds s)"
  shows "birds s' = (birds s)[i := move_then_decide act (networks s ! i) (pipes s ! k) (birds s ! i)]
     \<and> networks s' = networks s \<and> pipes s' = pipes s \<and> genomes s' = genomes s
     \<and> i < length (networks s) \<and> i < length (genomes s) \<and> k < length (pipes s)"
  using assms
  by (auto simp: emulate_bird_def Let_def move_then_decide_def sensor_vector_def
      split: if_splits)

lemma emulate_loop_nth:
  "emulate_loop act k i s = Inr s' \<Longrightarrow>
     length (birds s') = length (birds s) \<and> networks s' = networks s
     \<and> pipes s' = pipes s \<and> genomes s' = genomes s
     \<and> (\<forall>j<i. birds s' ! j = birds s ! j)
     \<and> (\<forall>j. i \<le> j \<and> j < length (birds s) \<longrightarrow>
           birds s' ! j = move_then_decide act (networks s ! j) (pipes s ! k) (birds s ! j))"
proof (induction act k i s rule: emulate_loop.induct)
  case (1 act k i s)
  show ?case
  proof (cases "i < length (birds s)")
    case True
    with "1.prems" obtain s1 where
      st: "emulate_bird act k i s = Inr s1" and rest: "emulate_loop act k (Suc i) s1 = Inr s'"
      by (subst (asm) emulate_loop.simps) (auto split: sum.splits)
    note e = emulate_bird_Inr [OF st True]
    note ih = "1.IH" [OF True st rest]
    have len: "length (birds s') = length (birds s)"
      using ih e by simp
    have low: "birds s' ! j = birds s ! j" if "j < i" for j
    proof -
      have "birds s' ! j = birds s1 ! j" using ih that by simp
      then show ?thesis using e that by simp
    qed
    have high: "birds s' ! j = move_then_decide act (networks s ! j) (pipes s ! k) (birds s ! j)"
      if "i \<le> j" "j < length (birds s)" for j
    proof (cases "j = i")
      case True
      have "birds s' ! i = birds s1 ! i" using ih by simp
      then show ?thesis using e True that by simp
    next
      case False
      then have "Suc i \<le> j \<and> j < length (birds s1)" using that e by simp
      then have "birds s' ! j = move_then_decide act (networks s1 ! j) (pipes s1 ! k) (birds s1 ! j)"
        using ih by blast
      then show ?thesis using e False by simp
    qed
    from len low high ih e show ?thesis by simp
  next
    case False
    with "1.prems" show ?thesis
      by (subst (asm) emulate_loop.simps) auto
  qed
qed

lemma emulate_birds_nth:
  assumes "emulate_birds act s = Inr s'" "i < length (birds s)"
  shows "birds s' ! i
     = move_then_decide act (networks s ! i) (pipes s ! current_pipe_index s) (birds s ! i)"
  using emulate_loop_nth [OF assms(1) [unfolded emulate_birds_def]] assms(2) by simp

lemma emulate_birds_total:
  assumes "same_length s" "pipes s \<noteq> []"
  shows "\<exists>s'. emulate_birds act s = Inr s'"
proof -
  have k: "current_pipe_index s < length (pipes s)"
    using assms(2) by (simp add: current_pipe_index_def)
  have "same_length s \<Longrightarrow> k < length (pipes s) \<Longrightarrow> \<exists>s'. emulate_loop act k i s = Inr s'" for k i
  proof (induction act k i s rule: emulate_loop.induct)
    case (1 act k i s)
    show ?case
    proof (cases "i < length (birds s)")
      case True
      then obtain s1 where st: "emulate_bird act k i s = Inr s1"
        using "1.prems" by (auto simp: emulate_bird_def Let_def same_length_def)
      note e = emulate_bird_Inr [OF st True]
      have "same_length s1" "k < length (pipes s1)"
        using e "1.prems" emulate_bird_length [OF st] by (simp_all add: same_length_def)
      from "1.IH" [OF True st this] obtain s' where "emulate_loop act k (Suc i) s1 = Inr s'" ..
      then show ?thesis
        using True st by (subst emulate_loop.simps) simp
    next
      case False
      then show ?thesis by (subst emulate_loop.simps) simp
    qed
  qed
  from this [OF assms(1) k] show ?thesis
    by (simp add: emulate_birds_def)
qed

text \<open>
  C3, amended: in every frame, for every bird, \<open>emulate_birds\<close> first advances the
  physics (\<open>move\<close>), then builds the sensor vector from the position so reached, asks the
  network, and applies the impulse if the output exceeds the threshold. The position of
  the bird after the frame is the one that \<open>move\<close> has given it before the decision.
\<close>

theorem advance_before_decision:
  assumes "emulate_birds activate s = Inr s'" "i < length (birds s)"
  shows "birds s' ! i
           = (let b1 = move (birds s ! i)
              in if DECISION_BORDER
                      < activate (networks s ! i) (sensor_vector b1 (pipes s ! current_pipe_index s))
                 then jump b1 else b1)
     \<and> position (birds s' ! i) = position (move (birds s ! i))"
proof -
  have "position (jump b) = position b" for b :: "'a bird_scheme"
    by (simp add: jump_def)
  then show ?thesis
    using emulate_birds_nth [OF assms] by (simp add: move_then_decide_def Let_def)
qed

text \<open>
  C7, amended: the vector passed to the network of bird \<open>i\<close> is the vertical position of
  the bird after the \<open>move\<close> of this frame, its distance to the top of the lower pipe of
  the target, and its distance to the height of the target; the target is the second pipe
  exactly when there is a second pipe and the horizontal position of the first bird
  exceeds the position of the first pipe plus the width of its upper pipe, and the first
  pipe otherwise.
\<close>

theorem sensor_inputs:
  assumes "emulate_birds activate s = Inr s'" "i < length (birds s)"
  shows "birds s' ! i
     = (let tp = pipes s ! (if 1 < length (pipes s)
                               \<and> position_x (pipes s ! 0) + get_width (snd (mini_pipes (pipes s ! 0)))
                                   < fst (position (birds s ! 0))
                            then 1 else 0);
            b1 = move (birds s ! i);
            y = snd (position b1)
        in if 1 / 2 < activate (networks s ! i)
                        (y, \<bar>y - of_int (fst (position_y tp))\<bar>, \<bar>y - of_int (height tp)\<bar>)
           then jump b1 else b1)"
proof -
  have "birds s \<noteq> []"
    using assms(2) by auto
  then show ?thesis
    using emulate_birds_nth [OF assms]
    by (simp add: move_then_decide_def sensor_vector_def Let_def current_pipe_index_def
        DECISION_BORDER_def)
qed

subsection \<open>All birds at one horizontal position\<close>

text \<open>
  Every bird is created at \<open>BIRD_POSITION_X\<close>, and nothing changes the first coordinate
  of a position: the birds of a run share one horizontal position.
\<close>

lemma scan_step_flag:
  "scan_step ov i p c s = Inr (p', c', s') \<Longrightarrow>
     c' \<longleftrightarrow> c \<or> (\<not> is_passed p \<and> position_x p < fst (position (birds s ! i)))"
  by (auto simp: scan_step_def is_bird_passed_def Let_def split: sum.splits if_splits)

lemma scan_step_birds:
  "scan_step ov i p c s = Inr (p', c', s') \<Longrightarrow> set (birds s') \<subseteq> set (birds s)"
  by (auto simp: scan_step_def Let_def on_collision_Inr split: sum.splits if_splits prod.splits
      dest: in_set_takeD in_set_dropD)

lemma birds_loop_birds_flag:
  "birds_loop ov i p c s = Inr (p', c', s') \<Longrightarrow>
     set (birds s') \<subseteq> set (birds s) \<and> (c \<longrightarrow> c')"
proof (induction ov i p c s rule: birds_loop.induct)
  case (1 ov i p c s)
  show ?case
  proof (cases "i < length (birds s)")
    case True
    with "1.prems" obtain p1 c1 s1 where
      st: "scan_step ov i p c s = Inr (p1, c1, s1)" and
      rest: "birds_loop ov (Suc i) p1 c1 s1 = Inr (p', c', s')"
      by (subst (asm) birds_loop.simps) (auto split: sum.splits)
    from "1.IH" [OF True st refl refl rest] scan_step_birds [OF st] scan_step_flag [OF st]
    show ?thesis by blast
  next
    case False
    with "1.prems" show ?thesis
      by (subst (asm) birds_loop.simps) simp
  qed
qed

lemma pipes_loop_birds_flag:
  "pipes_loop ov ps c s = Inr (marked, c', s') \<Longrightarrow>
     set (birds s') \<subseteq> set (birds s) \<and> (c \<longrightarrow> c')"
proof (induction ps arbitrary: c s marked c' s')
  case Nil
  then show ?case by simp
next
  case (Cons p ps)
  from Cons.prems obtain p1 c1 s1 m2 where
    a: "birds_loop ov 0 p c s = Inr (p1, c1, s1)" and
    b: "pipes_loop ov ps c1 s1 = Inr (m2, c', s')"
    by (auto split: sum.splits)
  from Cons.IH [OF b] birds_loop_birds_flag [OF a] show ?case by blast
qed

lemma border_loop_birds:
  "border_loop i s = Inr s' \<Longrightarrow> set (birds s') \<subseteq> set (birds s)"
proof (induction i s rule: border_loop.induct)
  case (1 i s)
  show ?case
  proof (cases "i < length (birds s)")
    case True
    with "1.prems" obtain s1 where
      st: "border_step i s = Inr s1" and rest: "border_loop (Suc i) s1 = Inr s'"
      by (subst (asm) border_loop.simps) (auto split: sum.splits)
    have "set (birds s1) \<subseteq> set (birds s)"
      using st by (auto simp: border_step_def remove_agent_Inr split: if_splits
          dest: in_set_takeD in_set_dropD)
    with "1.IH" [OF True st rest] show ?thesis by blast
  next
    case False
    with "1.prems" show ?thesis
      by (subst (asm) border_loop.simps) simp
  qed
qed

lemma move_pipes_birds:
  assumes "move_pipes ov h s = Inr s'"
  shows "set (birds s') \<subseteq> set (birds s)"
proof -
  from assms obtain marked c s1 marked' s2 where
    a: "pipes_loop ov (pipes s) False s = Inr (marked, c, s1)" and
    b: "(if c then spawn_pipe h marked s1 else Inr (marked, s1)) = Inr (marked', s2)" and
    d: "border_loop 0 (s2\<lparr>pipes := map fst (filter (\<lambda>m. \<not> snd m) marked')\<rparr>) = Inr s'"
    by (auto simp: move_pipes_def split: sum.splits)
  have "birds s2 = birds s1"
    using b by (auto simp: spawn_pipe_def split: if_splits list.splits)
  with pipes_loop_birds_flag [OF a] border_loop_birds [OF d] show ?thesis
    by auto
qed

lemma move_then_decide_x:
  "fst (position (move_then_decide act n tp b)) = fst (position b)"
  by (simp add: move_then_decide_def move_def jump_def Let_def)

lemma emulate_birds_x:
  assumes "emulate_birds act s = Inr s'" "\<forall>b\<in>set (birds s). fst (position b) = X"
  shows "\<forall>b\<in>set (birds s'). fst (position b) = X"
proof
  fix b assume "b \<in> set (birds s')"
  then obtain j where j: "j < length (birds s')" and b: "b = birds s' ! j"
    by (auto simp: in_set_conv_nth)
  note n = emulate_loop_nth [OF assms(1) [unfolded emulate_birds_def]]
  from n j have j': "j < length (birds s)" by simp
  with n have "birds s' ! j
      = move_then_decide act (networks s ! j) (pipes s ! current_pipe_index s) (birds s ! j)"
    by simp
  then have "fst (position b) = fst (position (birds s ! j))"
    by (simp add: b move_then_decide_x)
  then show "fst (position b) = X"
    using assms(2) j' by simp
qed

lemma draw_all_position: "draw_all bs = Inr bs' \<Longrightarrow> map position bs' = map position bs"
proof (induction bs arbitrary: bs')
  case Nil
  then show ?case by simp
next
  case (Cons b bs)
  then show ?case
    by (auto simp: draw_bird_def Let_def split: sum.splits if_splits)
qed

lemma frame_x:
  assumes "frame act ov h s = Inr s'" "\<forall>b\<in>set (birds s). fst (position b) = X"
  shows "\<forall>b\<in>set (birds s'). fst (position b) = X"
proof -
  from assms(1) obtain s1 s2 where
    a: "emulate_birds act (s\<lparr>base := move_base (base s)\<rparr>) = Inr s1" and
    b: "move_pipes ov h s1 = Inr s2" and
    c: "draw_window s2 = Inr s'"
    by (auto simp: frame_def split: sum.splits)
  have "\<forall>b\<in>set (birds s1). fst (position b) = X"
    using a assms(2) by (intro emulate_birds_x [OF a]) simp
  then have x2: "\<forall>b\<in>set (birds s2). fst (position b) = X"
    using move_pipes_birds [OF b] by blast
  from c have eq: "map position (birds s') = map position (birds s2)"
    by (auto simp: draw_window_def split: sum.splits dest: draw_all_position)
  show ?thesis
  proof
    fix b assume "b \<in> set (birds s')"
    then have "position b \<in> set (map position (birds s'))"
      by simp
    then have "position b \<in> set (map position (birds s2))"
      by (simp only: eq)
    then obtain b2 where b2: "b2 \<in> set (birds s2)" "position b2 = position b"
      by auto
    from x2 b2(1) have "fst (position b2) = X"
      by blast
    then show "fst (position b) = X"
      using b2(2) by simp
  qed
qed

lemma run_frames_x:
  "run_frames act ov hs s = Inr s' \<Longrightarrow> \<forall>b\<in>set (birds s). fst (position b) = X \<Longrightarrow>
     \<forall>b\<in>set (birds s'). fst (position b) = X"
proof (induction hs arbitrary: s)
  case Nil
  then show ?case by simp
next
  case (Cons h hs)
  show ?case
  proof (cases "0 < length (birds s)")
    case True
    with Cons.prems(1) obtain s1 where
      a: "frame act ov h s = Inr s1" and b: "run_frames act ov hs s1 = Inr s'"
      by (auto split: sum.splits)
    from Cons.IH [OF b frame_x [OF a Cons.prems(2)]] show ?thesis .
  next
    case False
    with Cons.prems show ?thesis by simp
  qed
qed

lemma add_agents_x:
  "add_agents create imgs batch s = Inr s' \<Longrightarrow>
     \<forall>b\<in>set (birds s). fst (position b) = BIRD_POSITION_X \<Longrightarrow>
     \<forall>b\<in>set (birds s'). fst (position b) = BIRD_POSITION_X"
proof (induction batch arbitrary: s)
  case Nil
  then show ?case by simp
next
  case (Cons kg batch)
  obtain key g where kg: "kg = (key, g)" by (cases kg)
  from Cons.prems(1) obtain b where
    b: "Bird (BIRD_POSITION_X, of_int BIRD_POSITION_Y) imgs = Inr b" and
    rest: "add_agents create imgs batch
            (s\<lparr>fitness := (fitness s)(g := 0), networks := networks s @ [create g],
               birds := birds s @ [b], genomes := genomes s @ [g]\<rparr>) = Inr s'"
    unfolding kg by (auto split: sum.splits)
  have "fst (position b) = BIRD_POSITION_X"
    using b by (auto simp: Bird_def split: list.splits)
  with Cons.prems(2) show ?case
    by (intro Cons.IH [OF rest]) simp
qed

lemma run_ne_init_x:
  assumes "run_ne_init create h batch s = Inr s'"
      and "\<forall>b\<in>set (birds s). fst (position b) = BIRD_POSITION_X"
  shows "\<forall>b\<in>set (birds s'). fst (position b) = BIRD_POSITION_X"
proof -
  from assms(1) obtain s1 pimg bimg where
    a: "add_agents create (get_assets (s\<lparr>score := 0\<rparr>) BIRD_IMAGE) batch (s\<lparr>score := 0\<rparr>) = Inr s1" and
    b: "s' = s1\<lparr>pipes := [Pipe PIPE_POSITION_X pimg h], base := Base BASE_POSITION_Y bimg\<rparr>"
    by (auto simp: run_ne_init_def Let_def split: list.splits sum.splits)
  from add_agents_x [OF a] assms(2) show ?thesis
    by (simp add: b)
qed

subsection \<open>The pass bonus\<close>

lemma keeps_refl: "distinct (genomes s) \<Longrightarrow> keeps s s"
  by (simp add: keeps_def)

lemma keeps_trans: "keeps s s1 \<Longrightarrow> keeps s1 s2 \<Longrightarrow> keeps s s2"
  by (auto simp: keeps_def)

lemma nth_not_in_rest:
  assumes "distinct xs" "i < length xs"
  shows "xs ! i \<notin> set (take i xs @ drop (Suc i) xs)"
proof -
  have "xs = take i xs @ xs ! i # drop (Suc i) xs"
    using assms(2) by (rule id_take_nth_drop)
  then have "distinct (take i xs @ xs ! i # drop (Suc i) xs)"
    using assms(1) by simp
  then show ?thesis by auto
qed

lemma distinct_rest:
  assumes "distinct xs"
  shows "distinct (take i xs @ drop (Suc i) xs)"
proof -
  have "set (take i xs) \<inter> set (drop (Suc i) xs) = {}"
    using assms by (rule set_take_disj_set_drop_if_distinct) simp
  then show ?thesis
    using assms by simp
qed

lemma set_rest: "set (take i xs @ drop (Suc i) xs) \<subseteq> set xs"
  by (auto dest: in_set_takeD in_set_dropD)

lemma on_collision_keeps:
  assumes "distinct (genomes s)" "on_collision i s = Inr s'"
  shows "keeps s s'"
proof -
  from assms(2) have i: "i < length (genomes s)"
    and g: "genomes s' = take i (genomes s) @ drop (Suc i) (genomes s)"
    and f: "fitness s' = (fitness s)(genomes s ! i := fitness s (genomes s ! i) - 1)"
    and r: "score s' = score s" "assets s' = assets s"
    by (auto simp: on_collision_Inr)
  have "genomes s ! i \<notin> set (genomes s')"
    unfolding g using assms(1) i by (rule nth_not_in_rest)
  then have fit: "\<forall>g\<in>set (genomes s'). fitness s' g = fitness s g"
    by (auto simp: f)
  have d: "distinct (genomes s')"
    unfolding g using assms(1) by (rule distinct_rest)
  have sub: "set (genomes s') \<subseteq> set (genomes s)"
    unfolding g by (rule set_rest)
  show ?thesis
    unfolding keeps_def using d sub fit r by blast
qed

lemma scan_step_keeps:
  assumes "distinct (genomes s)" "scan_step ov i p c s = Inr (p', c', s')"
  shows "keeps s s'"
  using assms
  by (auto simp: scan_step_def Let_def keeps_refl split: sum.splits if_splits prod.splits
      dest: on_collision_keeps)

lemma birds_loop_keeps:
  "distinct (genomes s) \<Longrightarrow> birds_loop ov i p c s = Inr (p', c', s') \<Longrightarrow> keeps s s'"
proof (induction ov i p c s rule: birds_loop.induct)
  case (1 ov i p c s)
  show ?case
  proof (cases "i < length (birds s)")
    case True
    with "1.prems"(2) obtain p1 c1 s1 where
      st: "scan_step ov i p c s = Inr (p1, c1, s1)" and
      rest: "birds_loop ov (Suc i) p1 c1 s1 = Inr (p', c', s')"
      by (subst (asm) birds_loop.simps) (auto split: sum.splits)
    have k: "keeps s s1" using "1.prems"(1) st by (rule scan_step_keeps)
    then have "distinct (genomes s1)" by (simp add: keeps_def)
    from "1.IH" [OF True st refl refl this rest] k show ?thesis
      by (blast intro: keeps_trans)
  next
    case False
    with "1.prems" show ?thesis
      by (subst (asm) birds_loop.simps) (simp add: keeps_refl)
  qed
qed

lemma pipes_loop_keeps:
  "distinct (genomes s) \<Longrightarrow> pipes_loop ov ps c s = Inr (marked, c', s') \<Longrightarrow> keeps s s'"
proof (induction ps arbitrary: c s marked c' s')
  case Nil
  then show ?case by (simp add: keeps_refl)
next
  case (Cons p ps)
  from Cons.prems(2) obtain p1 c1 s1 m2 where
    a: "birds_loop ov 0 p c s = Inr (p1, c1, s1)" and
    b: "pipes_loop ov ps c1 s1 = Inr (m2, c', s')"
    by (auto split: sum.splits)
  have k: "keeps s s1" using Cons.prems(1) a by (rule birds_loop_keeps)
  then have "distinct (genomes s1)" by (simp add: keeps_def)
  from Cons.IH [OF this b] k show ?case
    by (blast intro: keeps_trans)
qed

lemma scan_step_pipe:
  "scan_step ov i p c s = Inr (p', c', s') \<Longrightarrow>
     position_x p' = position_x p \<and> mini_pipes p' = mini_pipes p"
  by (auto simp: scan_step_def is_bird_passed_def Let_def split: sum.splits if_splits)

lemma birds_loop_pipe:
  "birds_loop ov i p c s = Inr (p', c', s') \<Longrightarrow>
     position_x p' = position_x p \<and> mini_pipes p' = mini_pipes p"
proof (induction ov i p c s rule: birds_loop.induct)
  case (1 ov i p c s)
  show ?case
  proof (cases "i < length (birds s)")
    case True
    with "1.prems" obtain p1 c1 s1 where
      st: "scan_step ov i p c s = Inr (p1, c1, s1)" and
      rest: "birds_loop ov (Suc i) p1 c1 s1 = Inr (p', c', s')"
      by (subst (asm) birds_loop.simps) (auto split: sum.splits)
    from "1.IH" [OF True st refl refl rest] scan_step_pipe [OF st] show ?thesis
      by simp
  next
    case False
    with "1.prems" show ?thesis
      by (subst (asm) birds_loop.simps) simp
  qed
qed

lemma pipes_loop_kept:
  "pipes_loop ov ps c s = Inr (marked, c', s') \<Longrightarrow>
     map (\<lambda>m. position_x (fst m)) (filter (\<lambda>m. \<not> snd m) marked)
       = map (\<lambda>p. position_x p - 5) (filter (\<lambda>p. \<not> is_window_passed p) ps)"
proof (induction ps arbitrary: c s marked c' s')
  case Nil
  then show ?case by simp
next
  case (Cons p ps)
  from Cons.prems obtain p1 c1 s1 m2 where
    a: "birds_loop ov 0 p c s = Inr (p1, c1, s1)" and
    b: "pipes_loop ov ps c1 s1 = Inr (m2, c', s')" and
    m: "marked = (move_pipe p1, is_window_passed p1) # m2"
    by (auto split: sum.splits)
  have "is_window_passed p1 = is_window_passed p"
    using birds_loop_pipe [OF a] by (simp add: is_window_passed_def)
  moreover have "position_x (move_pipe p1) = position_x p - 5"
    using birds_loop_pipe [OF a] by (simp add: move_pipe_def PIPE_VELOCITY_def)
  ultimately show ?case
    using Cons.IH [OF b] by (simp add: m)
qed

lemma reward_pass_Cons:
  "reward_pass (a # gs) f = reward_pass gs (f(a := f a + FITNESS_INCREASE_PASS))"
  by (simp add: reward_pass_def)

lemma reward_pass_notin: "g \<notin> set gs \<Longrightarrow> reward_pass gs f g = f g"
proof (induction gs arbitrary: f)
  case Nil
  then show ?case by (simp add: reward_pass_def)
next
  case (Cons a gs)
  then show ?case by (simp add: reward_pass_Cons)
qed

lemma reward_pass_in:
  "distinct gs \<Longrightarrow> g \<in> set gs \<Longrightarrow> reward_pass gs f g = f g + 5"
proof (induction gs arbitrary: f)
  case Nil
  then show ?case by simp
next
  case (Cons a gs)
  show ?case
  proof (cases "g = a")
    case True
    then have "g \<notin> set gs" using Cons.prems(1) by simp
    then have "reward_pass gs (f(a := f a + FITNESS_INCREASE_PASS)) g
        = (f(a := f a + FITNESS_INCREASE_PASS)) g"
      by (rule reward_pass_notin)
    then show ?thesis
      using True by (simp add: reward_pass_Cons FITNESS_INCREASE_PASS_def)
  next
    case False
    with Cons.prems have "distinct gs" "g \<in> set gs" by simp_all
    then have "reward_pass gs (f(a := f a + FITNESS_INCREASE_PASS)) g
        = (f(a := f a + FITNESS_INCREASE_PASS)) g + 5"
      by (rule Cons.IH)
    then show ?thesis
      using False by (simp add: reward_pass_Cons)
  qed
qed

lemma border_loop_rest:
  "border_loop i s = Inr s' \<Longrightarrow>
     fitness s' = fitness s \<and> score s' = score s \<and> pipes s' = pipes s"
proof (induction i s rule: border_loop.induct)
  case (1 i s)
  show ?case
  proof (cases "i < length (birds s)")
    case True
    with "1.prems" obtain s1 where
      st: "border_step i s = Inr s1" and rest: "border_loop (Suc i) s1 = Inr s'"
      by (subst (asm) border_loop.simps) (auto split: sum.splits)
    have "fitness s1 = fitness s \<and> score s1 = score s \<and> pipes s1 = pipes s"
      using st by (auto simp: border_step_def remove_agent_Inr split: if_splits)
    with "1.IH" [OF True st rest] show ?thesis by simp
  next
    case False
    with "1.prems" show ?thesis
      by (subst (asm) border_loop.simps) simp
  qed
qed

text \<open>
  What \<open>move_pipes\<close> does once the scan has set the flag \<open>create_new_pipe\<close>, in a state
  where no genome is listed twice.
\<close>

lemma pass_bonus_flag:
  assumes loop: "pipes_loop ov (pipes s) False s = Inr (marked, True, s1)"
      and dist: "distinct (genomes s)"
      and mp: "move_pipes ov h s = Inr s'"
  shows "score s' = score s + 1
     \<and> (\<exists>img kept. pipes s' = kept @ [Pipe PIPE_POSITION_X img h]
           \<and> map position_x kept
               = map (\<lambda>p. position_x p - 5) (filter (\<lambda>p. \<not> is_window_passed p) (pipes s)))
     \<and> position_x (last (pipes s')) = 650
     \<and> (\<forall>g\<in>set (genomes s1). fitness s' g = fitness s g + 5)"
proof -
  let ?kept = "map fst (filter (\<lambda>m. \<not> snd m) marked)"
  from mp obtain marked' s2 where
    sp: "spawn_pipe h marked s1 = Inr (marked', s2)" and
    bl: "border_loop 0 (s2\<lparr>pipes := map fst (filter (\<lambda>m. \<not> snd m) marked')\<rparr>) = Inr s'"
    unfolding move_pipes_def loop by (simp split: sum.splits prod.splits)
  from sp obtain img where
    m': "marked' = marked @ [(Pipe PIPE_POSITION_X img h, False)]" and
    s2: "s2 = s1\<lparr>score := score s1 + 1, fitness := reward_pass (genomes s1) (fitness s1)\<rparr>"
    unfolding spawn_pipe_def by (auto split: list.splits)
  have k: "keeps s s1" using dist loop by (rule pipes_loop_keeps)
  from border_loop_rest [OF bl] have
    f: "fitness s' = reward_pass (genomes s1) (fitness s1)" and
    sc: "score s' = score s1 + 1" and
    pp: "pipes s' = ?kept @ [Pipe PIPE_POSITION_X img h]"
    by (simp_all add: s2 m')
  have c1: "score s' = score s + 1"
    using sc k by (simp add: keeps_def)
  have "map position_x ?kept
      = map (\<lambda>p. position_x p - 5) (filter (\<lambda>p. \<not> is_window_passed p) (pipes s))"
    using pipes_loop_kept [OF loop] by (simp add: comp_def)
  with pp have c2: "\<exists>img kept. pipes s' = kept @ [Pipe PIPE_POSITION_X img h]
           \<and> map position_x kept
               = map (\<lambda>p. position_x p - 5) (filter (\<lambda>p. \<not> is_window_passed p) (pipes s))"
    by (intro exI [of _ img] exI [of _ ?kept] conjI)
  have c3: "position_x (last (pipes s')) = 650"
    by (simp add: pp Pipe_def PIPE_POSITION_X_def)
  have c4: "\<forall>g\<in>set (genomes s1). fitness s' g = fitness s g + 5"
  proof
    fix g assume g: "g \<in> set (genomes s1)"
    have "distinct (genomes s1)" using k by (simp add: keeps_def)
    then have "reward_pass (genomes s1) (fitness s1) g = fitness s1 g + 5"
      using g by (rule reward_pass_in)
    moreover have "fitness s1 g = fitness s g"
      using k g by (simp add: keeps_def)
    ultimately show "fitness s' g = fitness s g + 5"
      by (simp add: f)
  qed
  from c1 c2 c3 c4 show ?thesis by (intro conjI)
qed

lemma birds_loop_first:
  assumes "birds_loop ov 0 p c s = Inr (p', c', s')"
      and "birds s \<noteq> []" "\<not> is_passed p" "position_x p < fst (position (birds s ! 0))"
  shows "c'"
proof -
  from assms(1,2) obtain p1 c1 s1 where
    st: "scan_step ov 0 p c s = Inr (p1, c1, s1)" and
    rest: "birds_loop ov (Suc 0) p1 c1 s1 = Inr (p', c', s')"
    by (subst (asm) birds_loop.simps) (auto split: sum.splits)
  have "c1" using scan_step_flag [OF st] assms(3,4) by simp
  then show ?thesis using birds_loop_birds_flag [OF rest] by simp
qed

lemma pipes_loop_first_pass:
  assumes "pipes_loop ov ps c s = Inr (marked, c', s')"
      and "p \<in> set ps" "\<not> is_passed p"
      and "\<forall>b\<in>set (birds s). position_x p < fst (position b)"
      and "birds s' \<noteq> []"
  shows "c'"
  using assms
proof (induction ps arbitrary: c s marked c' s')
  case Nil
  then show ?case by simp
next
  case (Cons q ps)
  from Cons.prems(1) obtain q1 c1 s1 m2 where
    a: "birds_loop ov 0 q c s = Inr (q1, c1, s1)" and
    b: "pipes_loop ov ps c1 s1 = Inr (m2, c', s')"
    by (auto split: sum.splits)
  note sub1 = birds_loop_birds_flag [OF a]
  note sub2 = pipes_loop_birds_flag [OF b]
  show ?case
  proof (cases "p = q")
    case True
    have ne: "birds s \<noteq> []"
      using sub1 sub2 Cons.prems(5) by auto
    then have "birds s ! 0 \<in> set (birds s)"
      by simp
    then have "position_x q < fst (position (birds s ! 0))"
      using Cons.prems(4) True by blast
    from birds_loop_first [OF a ne _ this] Cons.prems(3) True have "c1"
      by simp
    then show ?thesis using sub2 by simp
  next
    case False
    then have "p \<in> set ps" using Cons.prems(2) by simp
    moreover have "\<forall>b\<in>set (birds s1). position_x p < fst (position b)"
      using Cons.prems(4) sub1 by blast
    ultimately show ?thesis
      using Cons.IH [OF b _ Cons.prems(3) _ Cons.prems(5)] by blast
  qed
qed

text \<open>
  C4: let \<open>s1\<close> be the state after the scan of \<open>move_pipes\<close> over pipes and birds. When
  a bird \<open>b\<close> that is still in the population in \<open>s1\<close> has behind it a pipe of the frame
  that was not marked as passed (the birds share one horizontal position, and no genome
  is listed twice), the scan has set the flag \<open>create_new_pipe\<close>, and \<open>move_pipes\<close> has
  increased the score by exactly 1; the list of pipes is the old pipes that have not left
  the window, each moved by 5, followed by exactly one new pipe at \<open>PIPE_POSITION_X = 650\<close>;
  and every genome that is in the population in \<open>s1\<close> has exactly 5 more fitness than
  before \<open>move_pipes\<close>.
\<close>

theorem pass_bonus:
  assumes loop: "pipes_loop ov (pipes s) False s = Inr (marked, c, s1)"
      and p: "p \<in> set (pipes s)" "\<not> is_passed p"
      and b: "b \<in> set (birds s1)" "position_x p < fst (position b)"
      and x: "\<forall>b'\<in>set (birds s). fst (position b') = fst (position b)"
      and dist: "distinct (genomes s)"
      and mp: "move_pipes ov h s = Inr s'"
  shows "c
     \<and> score s' = score s + 1
     \<and> (\<exists>img kept. pipes s' = kept @ [Pipe PIPE_POSITION_X img h]
           \<and> map position_x kept
               = map (\<lambda>p. position_x p - 5) (filter (\<lambda>p. \<not> is_window_passed p) (pipes s)))
     \<and> position_x (last (pipes s')) = 650
     \<and> (\<forall>g\<in>set (genomes s1). fitness s' g = fitness s g + 5)"
proof -
  have "\<forall>b'\<in>set (birds s). position_x p < fst (position b')"
    using x b(2) by simp
  moreover have "birds s1 \<noteq> []"
    using b(1) by auto
  ultimately have c: "c"
    using pipes_loop_first_pass [OF loop p] by blast
  with loop have "pipes_loop ov (pipes s) False s = Inr (marked, True, s1)"
    by simp
  from pass_bonus_flag [OF this dist mp] c show ?thesis
    by (intro conjI) simp_all
qed

subsection \<open>The engine on the concrete population\<close>

lemma ex_border:
  "\<exists>s'. move_pipes no_overlap 200 (two_agents (- 11 / 2) 650) = Inr s'
      \<and> birds s' = [agent (- 11 / 2) 2] \<and> networks s' = [2] \<and> genomes s' = [2]"
  by (simp add: engine_defs eval_defs constant_defs)

lemma ex_collide:
  "\<exists>s'. move_pipes always_overlap 200 (two_agents 350 650) = Inr s'
      \<and> birds s' = [agent 350 2] \<and> networks s' = [2] \<and> genomes s' = [2]"
  by (simp add: engine_defs eval_defs constant_defs)

lemma ex_frame:
  "\<exists>s'. frame never_jump no_overlap 200 (two_agents (- 20) 650) = Inr s'
      \<and> networks s' = [2] \<and> genomes s' = [2] \<and> map bird.more (birds s') = [2]"
  by (simp add: engine_defs eval_defs constant_defs)

lemma ex_init:
  "\<exists>s'. run_ne_init id 200 [(7, 1), (8, 2)] loaded_engine = Inr s'
      \<and> networks s' = [1, 2] \<and> genomes s' = [1, 2] \<and> birds s' = [new_bird, new_bird]"
  by (simp add: engine_defs eval_defs constant_defs)

lemma ex_pass_loop:
  "\<exists>marked s1. pipes_loop no_overlap (pipes (two_agents 350 215)) False (two_agents 350 215)
       = Inr (marked, True, s1) \<and> genomes s1 = [1, 2] \<and> birds s1 = [agent 350 1, agent 350 2]"
  by (simp add: engine_defs eval_defs constant_defs)

lemma ex_pass:
  "\<exists>s'. move_pipes no_overlap 200 (two_agents 350 215) = Inr s'
      \<and> score s' = 1 \<and> map position_x (pipes s') = [210, 650] \<and> fitness s' 1 = 5 \<and> fitness s' 2 = 5"
  by (simp add: engine_defs eval_defs constant_defs)

lemma ex_emulate:
  "\<exists>s'. emulate_birds always_jump (two_agents 350 650) = Inr s'
     \<and> map position (birds s') = [(220, 703 / 2), (220, 703 / 2)]"
  by (simp add: engine_defs eval_defs constant_defs)

theorem collision_penalty_witness:
  "same_length (two_agents 350 650)
   \<and> 0 < length (birds (two_agents 350 650))
   \<and> is_collision always_overlap (Pipe 650 pipe_surface 200) (birds (two_agents 350 650) ! 0)
   \<and> (\<exists>p' c' s'.
        scan_step always_overlap 0 (Pipe 650 pipe_surface 200) False (two_agents 350 650)
          = Inr (p', c', s')
        \<and> fitness s' 1 = - 1 \<and> fitness s' 2 = 0
        \<and> birds s' = [agent 350 2] \<and> networks s' = [2] \<and> genomes s' = [2]
        \<and> same_length s')"
proof -
  let ?S = "two_agents 350 650"
  have sl: "same_length ?S"
    by (simp add: same_length_def two_agents_def)
  have l: "0 < length (birds ?S)"
    by (simp add: two_agents_def)
  have c: "is_collision always_overlap (Pipe 650 pipe_surface 200) (birds ?S ! 0)"
    by (simp add: is_collision_def truth_value_def always_overlap_def Let_def)
  from collision_penalty [OF sl l c, of False]
  obtain p' c' s' where
    st: "scan_step always_overlap 0 (Pipe 650 pipe_surface 200) False ?S = Inr (p', c', s')" and
    f: "fitness s' = (fitness ?S)(genomes ?S ! 0 := fitness ?S (genomes ?S ! 0) - 1)" and
    b: "birds s' = take 0 (birds ?S) @ drop (Suc 0) (birds ?S)" and
    n: "networks s' = take 0 (networks ?S) @ drop (Suc 0) (networks ?S)" and
    g: "genomes s' = take 0 (genomes ?S) @ drop (Suc 0) (genomes ?S)" and
    sl': "same_length s'"
    by blast
  have "fitness s' 1 = - 1" "fitness s' 2 = 0" "birds s' = [agent 350 2]"
    "networks s' = [2]" "genomes s' = [2]"
    by (simp_all add: f b n g two_agents_def)
  with sl l c st sl' show ?thesis
    by (intro conjI exI [of _ p'] exI [of _ c'] exI [of _ s']) simp_all
qed

theorem parallel_lists_aligned_witness:
  "same_length loaded_engine
   \<and> (\<exists>u'. run_ne_init id 200 [(7, 1), (8, 2)] loaded_engine = Inr u'
         \<and> same_length u' \<and> genomes u' = [1, 2] \<and> networks u' = [1, 2]
         \<and> length (birds u') = 2)
   \<and> aligned id id (two_agents (- 20) 650)
   \<and> (\<exists>s'. remove_agent 0 (two_agents (- 20) 650) = Inr s' \<and> aligned id id s')
   \<and> (\<exists>s'. frame never_jump no_overlap 200 (two_agents (- 20) 650) = Inr s'
         \<and> aligned id id s' \<and> genomes s' = [2])
   \<and> (\<exists>s'. run_frames never_jump no_overlap [200] (two_agents (- 20) 650) = Inr s'
         \<and> aligned id id s')"
proof -
  let ?S = "two_agents (- 20) 650"
  have sl: "same_length loaded_engine"
    by (simp add: same_length_def loaded_engine_def)
  have al: "aligned id id ?S"
    by (simp add: aligned_def eval_defs)
  have l: "0 < length (birds ?S)"
    by (simp add: two_agents_def)
  obtain u' where init: "run_ne_init id 200 [(7, 1), (8, 2)] loaded_engine = Inr u'"
    using ex_init by blast
  obtain s' where fr: "frame never_jump no_overlap 200 ?S = Inr s'" and g: "genomes s' = [2]"
    using ex_frame by blast
  have rf: "run_frames never_jump no_overlap [200] ?S = Inr s'"
    using fr l by simp
  note T = parallel_lists_aligned [where u = loaded_engine and create = id and ?h0.0 = 200
      and batch = "[(7, 1), (8, 2)]" and u' = u' and na = id and ga = id and s = ?S
      and activate = never_jump and overlap = no_overlap and h = 200 and hs = "[200]"]
  note I = T [THEN conjunct1, THEN mp, OF conjI [OF sl init]]
  note A = T [THEN conjunct2, THEN mp, OF al]
  note R = A [THEN conjunct2, THEN conjunct1, THEN spec, of 0, THEN mp, OF l]
  note F = A [THEN conjunct2, THEN conjunct2, THEN conjunct2, THEN conjunct2, THEN conjunct1,
      THEN spec, THEN mp, OF fr]
  note RF = A [THEN conjunct2, THEN conjunct2, THEN conjunct2, THEN conjunct2, THEN conjunct2,
      THEN spec, THEN mp, OF rf]
  have P2: "\<exists>u'. run_ne_init id 200 [(7, 1), (8, 2)] loaded_engine = Inr u'
         \<and> same_length u' \<and> genomes u' = [1, 2] \<and> networks u' = [1, 2]
         \<and> length (birds u') = 2"
    using init I by (intro exI [of _ u']) (simp add: loaded_engine_def)
  have P5: "\<exists>s'. frame never_jump no_overlap 200 ?S = Inr s' \<and> aligned id id s' \<and> genomes s' = [2]"
    using fr F g by (intro exI [of _ s']) simp
  have P6: "\<exists>s'. run_frames never_jump no_overlap [200] ?S = Inr s' \<and> aligned id id s'"
    using rf RF by (intro exI [of _ s'] conjI)
  from sl P2 al R P5 P6 show ?thesis
    by (intro conjI)
qed

theorem pass_bonus_witness:
  "\<exists>marked s1 s'.
      pipes_loop no_overlap (pipes (two_agents 350 215)) False (two_agents 350 215)
        = Inr (marked, True, s1)
      \<and> Pipe 215 pipe_surface 200 \<in> set (pipes (two_agents 350 215))
      \<and> \<not> is_passed (Pipe 215 pipe_surface 200)
      \<and> agent 350 1 \<in> set (birds s1)
      \<and> position_x (Pipe 215 pipe_surface 200) < fst (position (agent 350 1))
      \<and> distinct (genomes (two_agents 350 215))
      \<and> move_pipes no_overlap 200 (two_agents 350 215) = Inr s'
      \<and> genomes s1 = [1, 2]
      \<and> score s' = 1
      \<and> position_x (last (pipes s')) = 650
      \<and> fitness s' 1 = 5 \<and> fitness s' 2 = 5"
proof -
  let ?S = "two_agents 350 215"
  let ?p = "Pipe 215 pipe_surface 200"
  obtain marked s1 where loop: "pipes_loop no_overlap (pipes ?S) False ?S = Inr (marked, True, s1)"
    and g: "genomes s1 = [1, 2]" and bs: "birds s1 = [agent 350 1, agent 350 2]"
    using ex_pass_loop by blast
  obtain s' where mp: "move_pipes no_overlap 200 ?S = Inr s'"
    using ex_pass by blast
  have d: "distinct (genomes ?S)"
    by (simp add: two_agents_def)
  have p: "?p \<in> set (pipes ?S)" "\<not> is_passed ?p"
    by (simp_all add: two_agents_def Pipe_def)
  have b: "agent 350 1 \<in> set (birds s1)" "position_x ?p < fst (position (agent 350 1))"
    by (simp_all add: bs Pipe_def agent_def bird.extend_def new_bird_def)
  have x: "\<forall>b'\<in>set (birds ?S). fst (position b') = fst (position (agent 350 1))"
    by (simp add: two_agents_def agent_def bird.extend_def new_bird_def)
  from pass_bonus [OF loop p b x d mp]
  have r: "score s' = 1 \<and> position_x (last (pipes s')) = 650
      \<and> fitness s' 1 = 5 \<and> fitness s' 2 = 5"
    by (simp add: g two_agents_def)
  from loop p b d mp r g show ?thesis
    by (intro exI [of _ marked] exI [of _ s1] exI [of _ s']) simp
qed

text \<open>
  C3, as the claim states it, fails: with a network that always decides to jump, the
  code moves a new bird down by 1.5 to 351.5 before it asks the network, whereas deciding
  first and advancing the physics afterwards would move the bird up by 8.5 to 341.5.
\<close>

theorem decision_after_advance:
  "(case emulate_birds always_jump (two_agents 350 650) of
      Inl e \<Rightarrow> None | Inr s' \<Rightarrow> Some (map position (birds s')))
     = Some [(220, 703 / 2), (220, 703 / 2)]
   \<and> position (decide_then_move always_jump 1 (Pipe 650 pipe_surface 200) (agent 350 1))
     = (220, 683 / 2)"
proof -
  obtain s' where "emulate_birds always_jump (two_agents 350 650) = Inr s'"
    "map position (birds s') = [(220, 703 / 2), (220, 703 / 2)]"
    using ex_emulate by auto
  moreover have "position (decide_then_move always_jump 1 (Pipe 650 pipe_surface 200) (agent 350 1))
     = (220, 683 / 2)"
    by (simp add: decide_then_move_def always_jump_def DECISION_BORDER_def jump_def move_def
        Let_def distance_formula_def agent_def bird.extend_def new_bird_def constant_defs)
  ultimately show ?thesis by simp
qed

theorem advance_before_decision_witness:
  "\<exists>s'. emulate_birds always_jump (two_agents 350 650) = Inr s'
      \<and> 0 < length (birds (two_agents 350 650))
      \<and> birds s' ! 0 = jump (move (agent 350 1))
      \<and> position (birds s' ! 0) = position (move (agent 350 1))"
proof -
  obtain s' where e: "emulate_birds always_jump (two_agents 350 650) = Inr s'"
    using ex_emulate by blast
  have l: "0 < length (birds (two_agents 350 650))"
    by (simp add: two_agents_def)
  from advance_before_decision [OF e l]
  have "birds s' ! 0 = jump (move (agent 350 1))
      \<and> position (birds s' ! 0) = position (move (agent 350 1))"
    by (simp add: two_agents_def always_jump_def DECISION_BORDER_def Let_def position_jump)
  with e l show ?thesis
    by (intro exI [of _ s']) (simp add: position_jump)
qed

text \<open>
  C7, as the claim states it, fails in a run. The engine has loaded a pipe image 4 wide
  and runs one genome whose network hovers. After 87 frames the bird is still there, the
  first pipe stands at 215 and is the only pipe, since no bird has passed it yet; its
  trailing edge at 219 is behind the bird at 220; and the target of the frame that
  follows is the first pipe.
\<close>

theorem target_stays_first_in_a_run:
  "(case run_ne id hover no_overlap 200 (replicate 87 200) [(1, 1)] narrow_engine of
      Inl e \<Rightarrow> None
    | Inr s \<Rightarrow>
        Some (length (birds s), map position_x (pipes s),
              position_x (pipes s ! 0) + get_width (snd (mini_pipes (pipes s ! 0)))
                < fst (position (birds s ! 0)),
              current_pipe_index s))
   = Some (1, [215], True, 0)"
  by (simp add: run_ne_def engine_defs eval_defs constant_defs eval_nat_numeral)

theorem sensor_inputs_witness:
  "\<exists>s'. emulate_birds never_jump (two_agents 350 650) = Inr s'
      \<and> 0 < length (birds (two_agents 350 650))
      \<and> never_jump 1 (703 / 2, \<bar>703 / 2 - 500\<bar>, \<bar>703 / 2 - 200\<bar>) = 3 / 10
      \<and> birds s' ! 0 = move (agent 350 1)"
proof -
  have "same_length (two_agents 350 650)" "pipes (two_agents 350 650) \<noteq> []"
    by (simp_all add: same_length_def two_agents_def)
  then obtain s' where e: "emulate_birds never_jump (two_agents 350 650) = Inr s'"
    using emulate_birds_total by blast
  have l: "0 < length (birds (two_agents 350 650))"
    by (simp add: two_agents_def)
  from sensor_inputs [OF e l]
  have "birds s' ! 0 = move (agent 350 1)"
    by (simp add: two_agents_def never_jump_def Let_def)
  with e l show ?thesis
    by (intro exI [of _ s']) (simp add: never_jump_def)
qed

text \<open>
  C2 does not hold of the code. Two birds above the top of the window (\<open>y = -5.5\<close>) both
  hit the border, yet the out-of-bounds scan of \<open>move_pipes\<close> removes the first and never
  looks at the second, which stays in the population. In the same way, of two birds that
  both collide with the pipe, the collision scan removes and penalises only the first.
\<close>

theorem agents_skipped_by_scans:
  "(\<exists>s'. move_pipes no_overlap 200 (two_agents (- 11 / 2) 650) = Inr s'
        \<and> birds s' = [agent (- 11 / 2) 2] \<and> hits_border (agent (- 11 / 2) 2))
   \<and> (\<exists>s'. move_pipes always_overlap 200 (two_agents 350 650) = Inr s'
        \<and> birds s' = [agent 350 2]
        \<and> is_collision always_overlap (Pipe 650 pipe_surface 200) (agent 350 2))"
proof -
  have "hits_border (agent (- 11 / 2) 2)"
    by (simp add: hits_border_def agent_def bird.extend_def new_bird_def)
  moreover have "is_collision always_overlap (Pipe 650 pipe_surface 200) (agent 350 2)"
    by (simp add: is_collision_def truth_value_def always_overlap_def Let_def)
  ultimately show ?thesis
    using ex_border ex_collide by blast
qed

end
